theory Spec2Isabelle
  imports Complex_Main "HOL-Library.Multiset" "HOL-Library.AList"
begin

section \<open>JavaScript values and built-ins used by the library\<close>

text \<open>
  A JavaScript array is a list whose entries may be \<open>undefined\<close>: an entry is
  \<open>None\<close> for \<open>undefined\<close> and \<open>Some x\<close> for a row \<open>x\<close>.
\<close>

type_synonym 'a jsarray = "'a option list"

text \<open>
  \<^verbatim>\<open>arr.splice(index, 1)[0]\<close>: removes the entry at \<open>index\<close> and returns it.
  A negative index counts from the end (clamped at 0), an index beyond the end is clamped
  to the length; when nothing is removed the returned array is empty and its entry 0 is
  \<open>undefined\<close>.
\<close>

definition splice1 :: "'a jsarray \<Rightarrow> int \<Rightarrow> 'a option \<times> 'a jsarray" where
  "splice1 arr index =
     (let len = int (length arr);
          start = (if index < 0 then max (len + index) 0 else min index len)
      in if start < len
         then (arr ! nat start, take (nat start) arr @ drop (Suc (nat start)) arr)
         else (None, arr))"

text \<open>
  \<^verbatim>\<open>parseInt(x, 10)\<close> on a Number: the number is converted to its decimal string
  and the leading integer is read from it. Numbers are modelled as exact rationals
  (IEEE rounding is abstracted). From \<open>10\<^sup>-\<^sup>6\<close> up to (excluding) \<open>10\<^sup>2\<^sup>1\<close> the string is
  positional and the result is the number truncated towards zero; outside that range the
  string is in scientific notation (\<^verbatim>\<open>"1e-7"\<close>, \<^verbatim>\<open>"2.5e+21"\<close>) and the result is the
  leading significant digit, with the sign.
\<close>

function lead_digit_small :: "int \<Rightarrow> int \<Rightarrow> int" where
  "lead_digit_small a b =
     (if a \<le> 0 \<or> b \<le> a then a div b else lead_digit_small (10 * a) b)"
  by pat_completeness auto
termination
  by (relation "measure (\<lambda>(a, b). nat (b - a))") auto

function lead_digit_big :: "int \<Rightarrow> int \<Rightarrow> int" where
  "lead_digit_big a b =
     (if b \<le> 0 \<or> a < 10 * b then a div b else lead_digit_big a (10 * b))"
  by pat_completeness auto
termination
  by (relation "measure (\<lambda>(a, b). nat (a - b))") auto

definition parseInt :: "rat \<Rightarrow> int" where
  "parseInt x =
     (let (a, b) = quotient_of \<bar>x\<bar>
      in if x = 0 then 0
         else if \<bar>x\<bar> < 1 / 10 ^ 6 then sgn (fst (quotient_of x)) * lead_digit_small a b
         else if 10 ^ 21 \<le> \<bar>x\<bar> then sgn (fst (quotient_of x)) * lead_digit_big a b
         else sgn (fst (quotient_of x)) * (a div b))"

text \<open>
  \<^verbatim>\<open>range(end)\<close> of lodash with one integer argument: \<open>0, 1, \<dots>, end - 1\<close> for a
  positive \<open>end\<close> and \<open>0, -1, \<dots>, end + 1\<close> for a negative one. Only its length
  matters to \<^verbatim>\<open>for (let i in range(folds))\<close>.
\<close>

definition range_length :: "int \<Rightarrow> nat" where
  "range_length n = (let step = (if 0 < n then 1 else -1) in nat (max (n div step) 0))"

section \<open>The random number generator (random-js)\<close>

text \<open>
  The generator is an external library. \<open>mt19937_seed s\<close> stands for
  \<^verbatim>\<open>Random.engines.mt19937().seed(s)\<close>, a fresh engine, and \<open>integer lo hi e\<close> for
  \<^verbatim>\<open>Random.integer(lo, hi)(e)\<close>, which advances the engine; \<open>None\<close> is a draw that
  does not return.
\<close>

record 'e random_js =
  mt19937_seed :: "int \<Rightarrow> 'e"
  integer :: "int \<Rightarrow> int \<Rightarrow> 'e \<Rightarrow> (int \<times> 'e) option"

text \<open>The library's contract: a draw returns, and within the range when it is not empty.\<close>

definition draws_return :: "'e random_js \<Rightarrow> bool" where
  "draws_return R = (\<forall>lo hi e. integer R lo hi e \<noteq> None)"

definition draws_in_range :: "'e random_js \<Rightarrow> bool" where
  "draws_in_range R =
     (\<forall>lo hi e. lo \<le> hi \<longrightarrow> (\<exists>i e'. integer R lo hi e = Some (i, e') \<and> lo \<le> i \<and> i \<le> hi))"

text \<open>
  A small generator that meets the contract: the engine is a counter, a draw from a
  non-empty range takes the counter modulo the width, and a draw from an empty range
  returns the lower bound without advancing (as random-js does). It instantiates the
  theorems below at concrete inputs.
\<close>

definition counter_random :: "nat random_js" where
  "counter_random =
     \<lparr>mt19937_seed = (\<lambda>s. nat \<bar>s\<bar>),
      integer = (\<lambda>lo hi e. if hi \<le> lo then Some (lo, e)
                            else Some (lo + int e mod (hi - lo + 1), Suc e))\<rparr>"

section \<open>cross\_validation.js\<close>

text \<open>
  The sampling loop of both splitters:
  \<^verbatim>\<open>while (acc.length < size) {
    const index = Random.integer(0, (dataset_copy.length - 1))(engine);
    acc.push(dataset_copy.splice(index, 1)[0]); }\<close>
\<close>

function sample_while ::
  "'e random_js \<Rightarrow> rat \<Rightarrow> 'a jsarray \<Rightarrow> 'a jsarray \<Rightarrow> 'e \<Rightarrow> ('a jsarray \<times> 'a jsarray \<times> 'e) option"
where
  "sample_while R limit acc dataset_copy engine =
     (if of_nat (length acc) < limit
      then (case integer R 0 (int (length dataset_copy) - 1) engine of
              None \<Rightarrow> None
            | Some (index, engine') \<Rightarrow>
                (case splice1 dataset_copy index of
                   (removed, dataset_copy') \<Rightarrow>
                     sample_while R limit (acc @ [removed]) dataset_copy' engine'))
      else Some (acc, dataset_copy, engine))"
  by pat_completeness auto
termination
proof (relation "measure (\<lambda>(R, limit, acc, dataset_copy, engine). nat \<lceil>limit\<rceil> - length acc)",
    goal_cases)
  case 1
  show ?case by simp
next
  case (2 R limit acc dataset_copy engine)
  then have "int (length acc) < \<lceil>limit\<rceil>"
    by (simp add: less_ceiling_iff)
  then show ?case by simp
qed

declare sample_while.simps [simp del]

record tts_options =
  test_size :: "rat option"
  train_size :: "rat option"
  random_state :: "int option"
  return_array :: "bool option"
  parse_int_train_size :: "bool option"

text \<open>The two shapes of the result: \<^verbatim>\<open>{train, test}\<close> or \<^verbatim>\<open>[train, test]\<close>.\<close>

datatype 'a tts_result = TrainTest (train: "'a jsarray") (test: "'a jsarray")
  | TrainTestArray (train: "'a jsarray") (test: "'a jsarray")

text \<open>\<^verbatim>\<open>x || d\<close> on an optional number: \<open>undefined\<close> and \<open>0\<close> are falsy.\<close>

definition or_default :: "'n::zero option \<Rightarrow> 'n \<Rightarrow> 'n" where
  "or_default x d = (case x of None \<Rightarrow> d | Some v \<Rightarrow> if v = 0 then d else v)"

definition truthy_num :: "'n::zero option \<Rightarrow> bool" where
  "truthy_num x = (case x of None \<Rightarrow> False | Some v \<Rightarrow> v \<noteq> 0)"

definition train_test_split ::
  "'e random_js \<Rightarrow> 'a jsarray \<Rightarrow> tts_options \<Rightarrow> 'a tts_result option"
where
  "train_test_split R dataset options =
     (let engine = mt19937_seed R (or_default (random_state options) 0);
          training_set = [];
          parse_int = (case parse_int_train_size options of Some b \<Rightarrow> b | None \<Rightarrow> True);
          train_size_length =
            (if truthy_num (train_size options)
             then or_default (train_size options) 0 * of_nat (length dataset)
             else (1 - or_default (test_size options) (2 / 10)) * of_nat (length dataset));
          train_size' = (if parse_int then of_int (parseInt train_size_length) else train_size_length);
          dataset_copy = dataset
      in case sample_while R train_size' training_set dataset_copy engine of
           None \<Rightarrow> None
         | Some (training_set', dataset_copy', engine') \<Rightarrow>
             Some (if return_array options = Some True
                   then TrainTestArray training_set' dataset_copy'
                   else TrainTest training_set' dataset_copy'))"

record cvs_options =
  folds :: "int option"
  cvs_random_state :: "int option"

text \<open>
  The body of \<^verbatim>\<open>for (let i in range(folds))\<close>, once per entry of the range: the
  engine and the working copy are shared by all the folds.
\<close>

fun fold_loop ::
  "'e random_js \<Rightarrow> rat \<Rightarrow> nat \<Rightarrow> 'a jsarray list \<Rightarrow> 'a jsarray \<Rightarrow> 'e
     \<Rightarrow> ('a jsarray list \<times> 'a jsarray \<times> 'e) option"
where
  "fold_loop R foldsize 0 dataset_split dataset_copy engine =
     Some (dataset_split, dataset_copy, engine)"
| "fold_loop R foldsize (Suc i) dataset_split dataset_copy engine =
     (case sample_while R foldsize [] dataset_copy engine of
        None \<Rightarrow> None
      | Some (fold', dataset_copy', engine') \<Rightarrow>
          fold_loop R foldsize i (dataset_split @ [fold']) dataset_copy' engine')"

definition cross_validation_split ::
  "'e random_js \<Rightarrow> 'a jsarray \<Rightarrow> cvs_options \<Rightarrow> 'a jsarray list option"
where
  "cross_validation_split R dataset options =
     (let engine = mt19937_seed R (or_default (cvs_random_state options) 0);
          folds' = or_default (folds options) 3;
          dataset_split = [];
          dataset_copy = dataset;
          foldsize = parseInt (of_nat (length dataset) / of_int (or_default (Some folds') 3))
      in map_option fst
           (fold_loop R (of_int foldsize) (range_length folds') dataset_split dataset_copy engine))"

section \<open>The splitters on a store of arrays\<close>

text \<open>
  Arrays are objects: the caller passes a reference to its dataset, and \<^verbatim>\<open>splice\<close> and
  \<^verbatim>\<open>push\<close> change an array in place. The store lists the arrays by address;
  \<^verbatim>\<open>[]\<close> and \<^verbatim>\<open>[].concat(dataset)\<close> allocate at the next free address.
\<close>

type_synonym 'a store = "'a jsarray list"

definition store_push :: "'a store \<Rightarrow> nat \<Rightarrow> 'a option \<Rightarrow> 'a store" where
  "store_push h a x = h[a := h ! a @ [x]]"

definition store_splice1 :: "'a store \<Rightarrow> nat \<Rightarrow> int \<Rightarrow> 'a option \<times> 'a store" where
  "store_splice1 h a index = (case splice1 (h ! a) index of (removed, rest) \<Rightarrow> (removed, h[a := rest]))"

partial_function (option) sample_while_st ::
  "'e random_js \<Rightarrow> rat \<Rightarrow> nat \<Rightarrow> nat \<Rightarrow> 'a store \<Rightarrow> 'e \<Rightarrow> ('a store \<times> 'e) option"
where
  "sample_while_st R limit acc dataset_copy h engine =
     (if of_nat (length (h ! acc)) < limit
      then (case integer R 0 (int (length (h ! dataset_copy)) - 1) engine of
              None \<Rightarrow> None
            | Some (index, engine') \<Rightarrow>
                (case store_splice1 h dataset_copy index of
                   (removed, h') \<Rightarrow>
                     sample_while_st R limit acc dataset_copy (store_push h' acc removed) engine'))
      else Some (h, engine))"

declare sample_while_st.simps [code]

datatype tts_ref = TrainTestRef nat nat | TrainTestArrayRef nat nat

fun deref_tts :: "'a store \<Rightarrow> tts_ref \<Rightarrow> 'a tts_result" where
  "deref_tts h (TrainTestRef tr te) = TrainTest (h ! tr) (h ! te)"
| "deref_tts h (TrainTestArrayRef tr te) = TrainTestArray (h ! tr) (h ! te)"

definition train_test_split_st ::
  "'e random_js \<Rightarrow> nat \<Rightarrow> tts_options \<Rightarrow> 'a store \<Rightarrow> (tts_ref \<times> 'a store) option"
where
  "train_test_split_st R dataset options h =
     (let engine = mt19937_seed R (or_default (random_state options) 0);
          training_set = length h;
          h1 = h @ [[]];
          parse_int = (case parse_int_train_size options of Some b \<Rightarrow> b | None \<Rightarrow> True);
          train_size_length =
            (if truthy_num (train_size options)
             then or_default (train_size options) 0 * of_nat (length (h1 ! dataset))
             else (1 - or_default (test_size options) (2 / 10)) * of_nat (length (h1 ! dataset)));
          train_size' = (if parse_int then of_int (parseInt train_size_length) else train_size_length);
          dataset_copy = length h1;
          h2 = h1 @ [h1 ! dataset]
      in case sample_while_st R train_size' training_set dataset_copy h2 engine of
           None \<Rightarrow> None
         | Some (h3, engine') \<Rightarrow>
             Some (if return_array options = Some True
                   then TrainTestArrayRef training_set dataset_copy
                   else TrainTestRef training_set dataset_copy, h3))"

fun fold_loop_st ::
  "'e random_js \<Rightarrow> rat \<Rightarrow> nat \<Rightarrow> nat list \<Rightarrow> nat \<Rightarrow> 'a store \<Rightarrow> 'e
     \<Rightarrow> (nat list \<times> 'a store \<times> 'e) option"
where
  "fold_loop_st R foldsize 0 dataset_split dataset_copy h engine =
     Some (dataset_split, h, engine)"
| "fold_loop_st R foldsize (Suc i) dataset_split dataset_copy h engine =
     (let fold' = length h; h1 = h @ [[]]
      in case sample_while_st R foldsize fold' dataset_copy h1 engine of
           None \<Rightarrow> None
         | Some (h2, engine') \<Rightarrow>
             fold_loop_st R foldsize i (dataset_split @ [fold']) dataset_copy h2 engine')"

definition cross_validation_split_st ::
  "'e random_js \<Rightarrow> nat \<Rightarrow> cvs_options \<Rightarrow> 'a store \<Rightarrow> (nat list \<times> 'a store) option"
where
  "cross_validation_split_st R dataset options h =
     (let engine = mt19937_seed R (or_default (cvs_random_state options) 0);
          folds' = or_default (folds options) 3;
          dataset_split = [];
          dataset_copy = length h;
          h1 = h @ [h ! dataset];
          foldsize = parseInt (of_nat (length (h1 ! dataset)) / of_int (or_default (Some folds') 3))
      in map_option (\<lambda>(dataset_split', h2, engine'). (dataset_split', h2))
           (fold_loop_st R (of_int foldsize) (range_length folds') dataset_split dataset_copy h1 engine))"

section \<open>cross\_validate\_score\<close>

text \<open>
  An exception: the \<^verbatim>\<open>TypeError\<close> of a call on \<open>undefined\<close>, or whatever a
  collaborator throws. A computation that may throw returns \<open>Inl\<close> of the exception;
  \<open>and_then\<close> runs the next statement unless one was thrown.
\<close>

datatype 'x exn = TypeError | Thrown 'x

definition and_then :: "'x + 'a \<Rightarrow> ('a \<Rightarrow> 'x + 'b) \<Rightarrow> 'x + 'b" where
  "and_then m f = (case m of Inl e \<Rightarrow> Inl e | Inr v \<Rightarrow> f v)"

text \<open>
  The collaborators of \<^verbatim>\<open>cross_validate_score\<close> are outside this file; they are
  parameters, on opaque values \<open>'v\<close> (data sets, matrices, label vectors):
  \<open>new_DataSet d\<close> is \<^verbatim>\<open>new DataSet(d)\<close>, \<open>columnMatrix ds fs\<close> is
  \<^verbatim>\<open>ds.columnMatrix(fs)\<close>, \<open>pivotVector0 m\<close> is \<^verbatim>\<open>util.pivotVector(m)[0]\<close>,
  \<open>new_Matrix m\<close> is \<^verbatim>\<open>new Matrix(m)\<close>, \<open>classifier_train c x y\<close> is \<^verbatim>\<open>c.train(x, y)\<close> and gives
  the trained classifier, \<open>classifier_predict c x\<close> is \<^verbatim>\<open>c.predict(x)\<close>, and \<open>getAccuracy a e\<close>
  is \<^verbatim>\<open>ConfusionMatrix.fromLabels(a, e).getAccuracy()\<close>.
\<close>

record ('a, 'v, 'c, 'x) collaborators =
  new_DataSet :: "'a jsarray option \<Rightarrow> 'x exn + 'v"
  columnMatrix :: "'v \<Rightarrow> string list list \<Rightarrow> 'x exn + 'v"
  pivotVector0 :: "'v \<Rightarrow> 'x exn + 'v"
  new_Matrix :: "'v \<Rightarrow> 'x exn + 'v"
  classifier_train :: "'c \<Rightarrow> 'v \<Rightarrow> 'v \<Rightarrow> 'x exn + 'c"
  classifier_predict :: "'c \<Rightarrow> 'v \<Rightarrow> 'x exn + 'v"
  getAccuracy :: "'v \<Rightarrow> 'v \<Rightarrow> 'x exn + rat"

record ('a, 'c) score_options =
  cfg_classifier :: "'c option"
  cfg_regression :: "bool option"
  cfg_dataset :: "'a jsarray option"
  cfg_testingset :: "'a jsarray option"
  cfg_dependentFeatures :: "string list list option"
  cfg_independentFeatures :: "string list list option"
  cfg_random_state :: "int option"
  cfg_folds :: "int option"
  cfg_use_train_x_matrix :: "bool option"
  cfg_use_train_y_matrix :: "bool option"

definition with_default :: "'b option \<Rightarrow> 'b \<Rightarrow> 'b" where
  "with_default x d = (case x of None \<Rightarrow> d | Some v \<Rightarrow> v)"

text \<open>
  The callback of \<^verbatim>\<open>folds.map(fold => ...)\<close>: it returns the accuracy, or \<open>undefined\<close>
  (\<open>None\<close>) from the empty \<^verbatim>\<open>if (regression) { }\<close> branch, and the classifier as the
  call leaves it.
\<close>

definition score_fold ::
  "('a, 'v, 'c, 'x) collaborators \<Rightarrow> ('a, 'c) score_options \<Rightarrow> 'v \<Rightarrow> 'v \<Rightarrow> 'c option
     \<Rightarrow> 'a jsarray \<Rightarrow> 'x exn + (rat option \<times> 'c option)"
where
  "score_fold C config x_test_matrix actuals classifier fold' =
     and_then (new_DataSet C (Some fold')) (\<lambda>trainingDataSet.
     and_then (columnMatrix C trainingDataSet
                 (with_default (cfg_dependentFeatures config) [[''X'']])) (\<lambda>x_train.
     and_then (columnMatrix C trainingDataSet
                 (with_default (cfg_independentFeatures config) [[''Y'']])) (\<lambda>y_train.
     and_then (if with_default (cfg_use_train_x_matrix config) True
               then new_Matrix C x_train else Inr x_train) (\<lambda>x_train_matrix.
     and_then (if with_default (cfg_use_train_y_matrix config) False
               then new_Matrix C y_train else Inr y_train) (\<lambda>y_train_matrix.
     if cfg_regression config = Some True then Inr (None, classifier)
     else (case classifier of
             None \<Rightarrow> Inl TypeError
           | Some c \<Rightarrow>
               and_then (classifier_train C c x_train_matrix y_train_matrix) (\<lambda>c'.
               and_then (classifier_predict C c' x_test_matrix) (\<lambda>estimates.
               and_then (getAccuracy C actuals estimates) (\<lambda>accuracy.
               Inr (Some accuracy, Some c'))))))))))"

fun score_folds ::
  "('a, 'v, 'c, 'x) collaborators \<Rightarrow> ('a, 'c) score_options \<Rightarrow> 'v \<Rightarrow> 'v \<Rightarrow> 'c option
     \<Rightarrow> 'a jsarray list \<Rightarrow> 'x exn + rat option list"
where
  "score_folds C config x_test_matrix actuals classifier [] = Inr []"
| "score_folds C config x_test_matrix actuals classifier (fold' # folds') =
     and_then (score_fold C config x_test_matrix actuals classifier fold') (\<lambda>(accuracy, classifier').
     and_then (score_folds C config x_test_matrix actuals classifier' folds') (\<lambda>accuracies.
     Inr (accuracy # accuracies)))"

definition cross_validate_score ::
  "'e random_js \<Rightarrow> ('a, 'v, 'c, 'x) collaborators \<Rightarrow> ('a, 'c) score_options
     \<Rightarrow> ('x exn + rat option list) option"
where
  "cross_validate_score R C config =
     (case cross_validation_split R (with_default (cfg_dataset config) [])
             \<lparr>folds = Some (with_default (cfg_folds config) 10),
              cvs_random_state = cfg_random_state config\<rparr> of
        None \<Rightarrow> None
      | Some folds' \<Rightarrow> Some (
          and_then (new_DataSet C (cfg_testingset config)) (\<lambda>testingDataSet.
          and_then (columnMatrix C testingDataSet
                      (with_default (cfg_independentFeatures config) [[''Y'']])) (\<lambda>y_test_matrix.
          and_then (columnMatrix C testingDataSet
                      (with_default (cfg_dependentFeatures config) [[''X'']])) (\<lambda>x_test_matrix.
          and_then (pivotVector0 C y_test_matrix) (\<lambda>actuals.
          score_folds C config x_test_matrix actuals (cfg_classifier config) folds'))))))"

text \<open>The data collaborators do not throw.\<close>

definition data_total :: "('a, 'v, 'c, 'x) collaborators \<Rightarrow> bool" where
  "data_total C =
     ((\<forall>d. \<exists>v. new_DataSet C d = Inr v) \<and> (\<forall>ds fs. \<exists>v. columnMatrix C ds fs = Inr v)
      \<and> (\<forall>m. \<exists>v. pivotVector0 C m = Inr v) \<and> (\<forall>m. \<exists>v. new_Matrix C m = Inr v))"

text \<open>
  Collaborators that keep nothing but sizes: a data set or matrix is the number of its
  rows, the classifier counts its trainings, the accuracy is 1.
\<close>

definition size_collaborators :: "('a, nat, nat, unit) collaborators" where
  "size_collaborators =
     \<lparr>new_DataSet = (\<lambda>d. Inr (length (with_default d []))),
      columnMatrix = (\<lambda>ds fs. Inr ds),
      pivotVector0 = (\<lambda>m. Inr m),
      new_Matrix = (\<lambda>m. Inr m),
      classifier_train = (\<lambda>c x y. Inr (Suc c)),
      classifier_predict = (\<lambda>c x. Inr x),
      getAccuracy = (\<lambda>a e. Inr 1)\<rparr>"

section \<open>Rows and positions\<close>

text \<open>
  The rows held by an array (its entries other than \<open>undefined\<close>), as a list and as a
  multiset.
\<close>

fun defined :: "'a jsarray \<Rightarrow> 'a list" where
  "defined [] = []"
| "defined (None # arr) = defined arr"
| "defined (Some x # arr) = x # defined arr"

definition entries :: "'a jsarray \<Rightarrow> 'a multiset" where
  "entries arr = mset (defined arr)"

text \<open>
  To follow the positions of a dataset through a split, every entry is paired with its
  position; \<open>untag\<close> gives the entry back.
\<close>

definition tagged :: "'a jsarray \<Rightarrow> (nat \<times> 'a option) jsarray" where
  "tagged dataset = map Some (enumerate 0 dataset)"

definition untag :: "(nat \<times> 'a option) option \<Rightarrow> 'a option" where
  "untag t = (case t of None \<Rightarrow> None | Some (i, x) \<Rightarrow> x)"

section \<open>calc.js\<close>

text \<open>
  The cells of the CSV data are strings. \<^verbatim>\<open>n.toString()\<close> of a non-negative integer is
  its decimal numeral.
\<close>

definition digit_char :: "nat \<Rightarrow> char" where
  "digit_char d = ''0123456789'' ! d"

function toString :: "nat \<Rightarrow> string" where
  "toString n = (if n < 10 then [digit_char n] else toString (n div 10) @ [digit_char (n mod 10)])"
  by pat_completeness auto
termination
  by (relation "measure id") auto

declare toString.simps [simp del]

text \<open>Truthiness of the result of \<^verbatim>\<open>Map.get\<close> on strings: \<open>undefined\<close> and \<^verbatim>\<open>''\<close> are falsy.\<close>

definition truthy_str :: "string option \<Rightarrow> bool" where
  "truthy_str r = (case r of None \<Rightarrow> False | Some s \<Rightarrow> s \<noteq> [])"

text \<open>
  A \<^verbatim>\<open>Set\<close> is the list of its members in insertion order; a \<^verbatim>\<open>Map\<close> is the
  association list of its entries in insertion order: \<^verbatim>\<open>get\<close> is \<open>map_of\<close>,
  \<^verbatim>\<open>set\<close> is \<open>AList.update\<close> and \<^verbatim>\<open>size\<close> is the length.
\<close>

definition set_add :: "string \<Rightarrow> string list \<Rightarrow> string list" where
  "set_add v vs = (if v \<in> set vs then vs else vs @ [v])"

text \<open>
  The body of \<^verbatim>\<open>values.forEach(val => { if (!valuesMap.get(val)) { ... } })\<close>.
\<close>

definition assign_token :: "string \<Rightarrow> (string \<times> string) list \<Rightarrow> (string \<times> string) list" where
  "assign_token val valuesMap =
     (if \<not> truthy_str (map_of valuesMap val)
      then (let index = (if int (length valuesMap) < 0 then 0
                         else nat (parseInt (of_nat (length valuesMap) / 2)))
            in AList.update (toString index) val (AList.update val (toString index) valuesMap))
      else valuesMap)"

record encoder =
  values_set :: "string list"
  valuesMap :: "(string \<times> string) list"

text \<open>The callback of \<^verbatim>\<open>data.map(csvRow => ...)\<close>; a row is \<^verbatim>\<open>Object.values(csvRow)\<close>.\<close>

definition encode_row :: "string list \<Rightarrow> encoder \<Rightarrow> string list \<times> encoder" where
  "encode_row csvRow st =
     (let values' = fold set_add csvRow (values_set st);
          valuesMap' = fold assign_token values' (valuesMap st)
      in (List.map_filter (map_of valuesMap') csvRow,
          \<lparr>values_set = values', valuesMap = valuesMap'\<rparr>))"

fun encode_rows :: "string list list \<Rightarrow> encoder \<Rightarrow> string list list \<times> encoder" where
  "encode_rows [] st = ([], st)"
| "encode_rows (csvRow # data) st =
     (case encode_row csvRow st of
        (t, st') \<Rightarrow> (case encode_rows data st' of (ts, st'') \<Rightarrow> (t # ts, st'')))"

record transactions_result = encoder +
  transactions :: "string list list"

text \<open>
  The options are an object: a map from option names to (boolean) values, merged over
  the defaults by \<^verbatim>\<open>Object.assign\<close>.
\<close>

definition getTransactions :: "string list list \<Rightarrow> (string \<rightharpoonup> bool) \<Rightarrow> transactions_result" where
  "getTransactions data options =
     (let config = [''exludeEmptyTranscations'' \<mapsto> True] ++ options
      in case encode_rows data \<lparr>values_set = [], valuesMap = []\<rparr> of
           (ts, st) \<Rightarrow>
             \<lparr>values_set = values_set st, valuesMap = valuesMap st,
              transactions = (if config ''exludeEmptyTranscations'' = Some True
                              then filter (\<lambda>csvRow. length csvRow \<noteq> 0) ts
                              else ts)\<rparr>)"


text \<open>
  A JavaScript Number that results from a division: a rational (IEEE rounding is
  abstracted), an infinity, or \<^verbatim>\<open>NaN\<close>.
\<close>

datatype number = Finite rat | PlusInfinity | MinusInfinity | NaN

definition js_divide :: "int \<Rightarrow> int \<Rightarrow> number" where
  "js_divide a b =
     (if b \<noteq> 0 then Finite (of_int a / of_int b)
      else if 0 < a then PlusInfinity else if a < 0 then MinusInfinity else NaN)"

text \<open>
  \<^verbatim>\<open>Array.prototype.sort(compare)\<close> with a consistent comparator: the stable sort
  that puts \<open>a\<close> before \<open>b\<close> when \<open>compare a b \<le> 0\<close>.
\<close>

fun sort_insert :: "('a \<Rightarrow> 'a \<Rightarrow> int) \<Rightarrow> 'a \<Rightarrow> 'a list \<Rightarrow> 'a list" where
  "sort_insert compare a [] = [a]"
| "sort_insert compare a (b # bs) =
     (if compare a b \<le> 0 then a # b # bs else b # sort_insert compare a bs)"

definition array_sort :: "('a \<Rightarrow> 'a \<Rightarrow> int) \<Rightarrow> 'a list \<Rightarrow> 'a list" where
  "array_sort compare arr = foldr (sort_insert compare) arr []"

text \<open>An itemset of the mining result, and a record of the summary.\<close>

record itemset =
  items :: "string list"
  support :: int

record itemset_summary = itemset +
  items_labels :: "string option list"
  support_percent :: number

record arl_options =
  opt_support :: "rat option"
  opt_minLength :: "int option"
  opt_summary :: "bool option"
  opt_valuesMap :: "(string \<times> string) list option"

datatype arl_output = Summary "itemset_summary list" | Results "itemset list"

text \<open>
  The mining itself is the external \<^verbatim>\<open>node-fpgrowth\<close>: \<open>exec s ts\<close> stands for
  \<^verbatim>\<open>new FPGrowth(s).exec(ts)\<close>, which resolves with itemsets (\<open>Inr\<close>) or fails
  (\<open>Inl\<close>). The promise returned by \<^verbatim>\<open>assocationRuleLearning\<close> is resolved (\<open>Inr\<close>)
  or rejected (\<open>Inl\<close>).
\<close>

definition assocationRuleLearning ::
  "(rat \<Rightarrow> string list list \<Rightarrow> 'x + itemset list) \<Rightarrow> string list list \<Rightarrow> arl_options
     \<Rightarrow> 'x + arl_output"
where
  "assocationRuleLearning exec transactions' options =
     (let config_support = (case opt_support options of None \<Rightarrow> 4 / 10 | Some s \<Rightarrow> s);
          config_minLength = (case opt_minLength options of None \<Rightarrow> 2 | Some l \<Rightarrow> l);
          config_summary = (case opt_summary options of None \<Rightarrow> True | Some b \<Rightarrow> b);
          config_valuesMap = (case opt_valuesMap options of None \<Rightarrow> [] | Some m \<Rightarrow> m)
      in case exec config_support transactions' of
           Inl e \<Rightarrow> Inl e
         | Inr itemsets \<Rightarrow>
             if config_summary
             then Inr (Summary
               (array_sort (\<lambda>a b. support b - support a)
                 (filter (\<lambda>itemset. length (items itemset) > 1)
                   (map (\<lambda>itemset.
                           \<lparr>items = items itemset,
                            support = support itemset,
                            items_labels = map (map_of config_valuesMap) (items itemset),
                            support_percent =
                              js_divide (support itemset) (int (length transactions'))\<rparr>)
                      itemsets))))
             else Inr (Results itemsets))"

section \<open>Properties of the built-ins\<close>

lemma splice1_in_range:
  assumes "0 \<le> i" "i < int (length arr)"
  shows "splice1 arr i = (arr ! nat i, take (nat i) arr @ drop (Suc (nat i)) arr)"
  using assms by (simp add: splice1_def Let_def)

lemma splice1_cases:
  "(\<exists>i < length arr. splice1 arr index = (arr ! i, take i arr @ drop (Suc i) arr))
   \<or> splice1 arr index = (None, arr)"
proof -
  define len where "len = int (length arr)"
  define start where "start = (if index < 0 then max (len + index) 0 else min index len)"
  have s0: "0 \<le> start" by (auto simp: start_def len_def)
  have eq: "splice1 arr index =
      (if start < len then (arr ! nat start, take (nat start) arr @ drop (Suc (nat start)) arr)
       else (None, arr))"
    unfolding splice1_def Let_def start_def len_def ..
  show ?thesis
  proof (cases "start < len")
    case True
    with s0 have "nat start < length arr" by (simp add: len_def)
    with True eq show ?thesis by auto
  next
    case False
    with eq show ?thesis by simp
  qed
qed

lemma mset_remove_nth:
  assumes "i < length xs"
  shows "add_mset (xs ! i) (mset (take i xs @ drop (Suc i) xs)) = mset xs"
proof -
  have "mset xs = mset (take i xs @ xs ! i # drop (Suc i) xs)"
    using id_take_nth_drop [OF assms] by simp
  then show ?thesis by simp
qed

lemma lead_digit_small_nonneg: "0 \<le> a \<Longrightarrow> 0 < b \<Longrightarrow> 0 \<le> lead_digit_small a b"
proof (induction a b rule: lead_digit_small.induct)
  case (1 a b)
  show ?case
  proof (cases "a \<le> 0 \<or> b \<le> a")
    case True
    with "1.prems" show ?thesis
      by (subst lead_digit_small.simps) (simp add: pos_imp_zdiv_nonneg_iff)
  next
    case False
    with "1.IH" "1.prems" show ?thesis
      by (subst lead_digit_small.simps) simp
  qed
qed

lemma lead_digit_big_bounds:
  "0 \<le> a \<Longrightarrow> 0 < b \<Longrightarrow> 0 \<le> lead_digit_big a b \<and> lead_digit_big a b \<le> a div b"
proof (induction a b rule: lead_digit_big.induct)
  case (1 a b)
  show ?case
  proof (cases "b \<le> 0 \<or> a < 10 * b")
    case True
    with "1.prems" show ?thesis
      by (subst lead_digit_big.simps) (simp add: pos_imp_zdiv_nonneg_iff)
  next
    case False
    with "1.IH" "1.prems" have ih: "0 \<le> lead_digit_big a (10 * b)"
      "lead_digit_big a (10 * b) \<le> a div (10 * b)" by simp_all
    have "a div (10 * b) \<le> a div b"
      using "1.prems" by (intro zdiv_mono2) simp_all
    with ih False show ?thesis
      by (subst lead_digit_big.simps) simp
  qed
qed

lemma parseInt_positional:
  assumes "1 / 10 ^ 6 \<le> x" "x < 10 ^ 21"
  shows "parseInt x = \<lfloor>x\<rfloor>"
proof -
  obtain a b where q: "quotient_of x = (a, b)" by (cases "quotient_of x")
  from q have b: "0 < b" by (rule quotient_of_denom_pos)
  from q have x: "x = of_int a / of_int b" by (rule quotient_of_div)
  have "(0::rat) < 1 / 10 ^ 6" by simp
  with assms(1) have xpos: "0 < x" by linarith
  with x b have a: "0 < a" by (simp add: zero_less_divide_iff)
  have "\<lfloor>x\<rfloor> = a div b" unfolding x by (rule floor_divide_of_int_eq)
  with assms xpos q a show ?thesis
    by (simp add: parseInt_def Let_def abs_of_pos)
qed

lemma parseInt_nonneg: 
  assumes "0 \<le> x" shows "0 \<le> parseInt x"
proof -
  obtain a b where q: "quotient_of x = (a, b)" by (cases "quotient_of x")
  from q have b: "0 < b" by (rule quotient_of_denom_pos)
  from q have x: "x = of_int a / of_int b" by (rule quotient_of_div)
  with assms b have a: "0 \<le> a" by (simp add: zero_le_divide_iff)
  from assms have ax: "\<bar>x\<bar> = x" by simp
  have "0 \<le> sgn a" using a by (simp add: sgn_if)
  moreover have "0 \<le> lead_digit_small a b" using a b by (rule lead_digit_small_nonneg)
  moreover have "0 \<le> lead_digit_big a b" using a b lead_digit_big_bounds by blast
  moreover have "0 \<le> a div b" using a b by (simp add: pos_imp_zdiv_nonneg_iff)
  ultimately show ?thesis
    by (simp add: parseInt_def Let_def ax q)
qed

lemma parseInt_nonpos: 
  assumes "x \<le> 0" shows "parseInt x \<le> 0"
proof -
  obtain a b where q: "quotient_of x = (a, b)" by (cases "quotient_of x")
  obtain a' b' where q': "quotient_of \<bar>x\<bar> = (a', b')" by (cases "quotient_of \<bar>x\<bar>")
  from q have b: "0 < b" by (rule quotient_of_denom_pos)
  from q have x: "x = of_int a / of_int b" by (rule quotient_of_div)
  with assms b have a: "a \<le> 0" by (simp add: divide_le_0_iff)
  from q' have b': "0 < b'" by (rule quotient_of_denom_pos)
  from q' have x': "\<bar>x\<bar> = of_int a' / of_int b'" by (rule quotient_of_div)
  have "0 \<le> \<bar>x\<bar>" by simp
  with x' b' have a': "0 \<le> a'" by (simp add: zero_le_divide_iff)
  have "sgn a \<le> 0" using a by (simp add: sgn_if)
  moreover have "0 \<le> lead_digit_small a' b'" using a' b' by (rule lead_digit_small_nonneg)
  moreover have "0 \<le> lead_digit_big a' b'" using a' b' lead_digit_big_bounds by blast
  moreover have "0 \<le> a' div b'" using a' b' by (simp add: pos_imp_zdiv_nonneg_iff)
  ultimately show ?thesis
    by (simp add: parseInt_def Let_def q q' mult_le_0_iff)
qed

lemma parseInt_le_floor:
  assumes "1 / 10 ^ 6 \<le> x"
  shows "parseInt x \<le> \<lfloor>x\<rfloor>"
proof (cases "x < 10 ^ 21")
  case True
  with assms show ?thesis by (simp add: parseInt_positional)
next
  case False
  obtain a b where q: "quotient_of x = (a, b)" by (cases "quotient_of x")
  from q have b: "0 < b" by (rule quotient_of_denom_pos)
  from q have x: "x = of_int a / of_int b" by (rule quotient_of_div)
  have "(0::rat) < 1 / 10 ^ 6" by simp
  with assms(1) have xpos: "0 < x" by linarith
  with x b have a: "0 < a" by (simp add: zero_less_divide_iff)
  have fl: "\<lfloor>x\<rfloor> = a div b" unfolding x by (rule floor_divide_of_int_eq)
  have "lead_digit_big a b \<le> a div b" using a b lead_digit_big_bounds [of a b] by simp
  with assms False xpos q a fl show ?thesis
    by (simp add: parseInt_def Let_def abs_of_pos)
qed

lemma counter_random_in_range: "draws_in_range counter_random"
  unfolding draws_in_range_def
proof (intro allI impI)
  fix lo hi :: int and e :: nat
  assume "lo \<le> hi"
  show "\<exists>i e'. integer counter_random lo hi e = Some (i, e') \<and> lo \<le> i \<and> i \<le> hi"
  proof (cases "hi \<le> lo")
    case True
    with \<open>lo \<le> hi\<close> show ?thesis by (simp add: counter_random_def)
  next
    case False
    then have m: "0 < hi - lo + 1" by simp
    have "0 \<le> int e mod (hi - lo + 1)" "int e mod (hi - lo + 1) < hi - lo + 1"
      using m by (rule pos_mod_sign, rule pos_mod_bound)
    with False show ?thesis by (simp add: counter_random_def)
  qed
qed

section \<open>The sampling loop\<close>

lemma sample_while_in_range:
  "draws_in_range R \<Longrightarrow> nat \<lceil>limit\<rceil> - length acc \<le> length pool \<Longrightarrow>
    \<exists>drawn pool' e'. sample_while R limit acc pool e = Some (acc @ drawn, pool', e')
      \<and> mset drawn + mset pool' = mset pool
      \<and> length (acc @ drawn) = max (length acc) (nat \<lceil>limit\<rceil>)"
proof (induction R limit acc pool e rule: sample_while.induct)
  case (1 R limit acc pool e)
  show ?case
  proof (cases "of_nat (length acc) < limit")
    case False
    then have "\<lceil>limit\<rceil> \<le> int (length acc)"
      by (simp add: ceiling_le_iff)
    then have "max (length acc) (nat \<lceil>limit\<rceil>) = length acc" by linarith
    with False show ?thesis
      by (subst sample_while.simps) simp
  next
    case True
    then have lt: "int (length acc) < \<lceil>limit\<rceil>"
      by (simp add: less_ceiling_iff)
    with "1.prems"(2) have ne: "0 < length pool" by linarith
    then have "(0::int) \<le> int (length pool) - 1" by simp
    with "1.prems"(1) obtain i e1 where
      draw: "integer R 0 (int (length pool) - 1) e = Some (i, e1)"
      and i: "0 \<le> i" "i \<le> int (length pool) - 1"
      unfolding draws_in_range_def by blast
    define x where "x = pool ! nat i"
    define pool1 where "pool1 = take (nat i) pool @ drop (Suc (nat i)) pool"
    have sp: "splice1 pool i = (x, pool1)"
      using i by (simp add: splice1_in_range x_def pool1_def)
    have len1: "length pool1 = length pool - 1"
      using i ne by (simp add: pool1_def)
    have "nat \<lceil>limit\<rceil> - length (acc @ [x]) \<le> length pool1"
      using "1.prems"(2) lt len1 by simp
    from "1.IH" [OF True draw refl sp [symmetric] "1.prems"(1) this]
    obtain drawn pool' e' where
      rec: "sample_while R limit (acc @ [x]) pool1 e1 = Some ((acc @ [x]) @ drawn, pool', e')"
      and ms: "mset drawn + mset pool' = mset pool1"
      and ln: "length ((acc @ [x]) @ drawn) = max (length (acc @ [x])) (nat \<lceil>limit\<rceil>)"
      by blast
    have "sample_while R limit acc pool e = Some (acc @ (x # drawn), pool', e')"
      using True draw sp rec by (subst sample_while.simps) simp
    moreover have "mset (x # drawn) + mset pool' = mset pool"
    proof -
      have "nat i < length pool" using i ne by linarith
      from mset_remove_nth [OF this] ms show ?thesis
        by (simp add: x_def pool1_def)
    qed
    moreover have "length (acc @ (x # drawn)) = max (length acc) (nat \<lceil>limit\<rceil>)"
      using ln lt by simp
    ultimately show ?thesis by blast
  qed
qed


lemma default_train_size:
  "nat \<lceil>(of_int (parseInt ((1 - 2 / 10) * of_nat n)) :: rat)\<rceil> \<le> n"
proof (cases "n = 0")
  case True
  then show ?thesis by (simp add: parseInt_def)
next
  case False
  define x :: rat where "x = (1 - 2 / 10) * of_nat n"
  have x: "x = 4 / 5 * of_nat n" by (simp add: x_def)
  from False have "(1::rat) \<le> of_nat n" by simp
  then have "1 / 10 ^ 6 \<le> x" unfolding x by simp
  then have "parseInt x \<le> \<lfloor>x\<rfloor>" by (rule parseInt_le_floor)
  moreover have "x \<le> of_nat n" unfolding x by simp
  then have "\<lfloor>x\<rfloor> \<le> int n" by (simp add: floor_le_iff) 
  ultimately have "parseInt x \<le> int n" by simp
  then show ?thesis by (simp add: x_def)
qed

section \<open>train\_test\_split\<close>

text \<open>
  C1. For every dataset \<open>D\<close> and every seed \<open>S\<close>, \<^verbatim>\<open>train_test_split(D, {random_state: S})\<close>
  returns a train list and a test list whose lengths add up to the length of \<open>D\<close> and
  whose multiset union is the multiset of \<open>D\<close>: no row is lost or duplicated. The
  generator is any one that meets the library's contract.
\<close>

theorem train_test_split_partition:
  assumes "draws_in_range R"
  shows "\<exists>tr te.
    train_test_split R D \<lparr>test_size = None, train_size = None, random_state = Some S,
        return_array = None, parse_int_train_size = None\<rparr> = Some (TrainTest tr te)
    \<and> length tr + length te = length D
    \<and> mset tr + mset te = mset D"
proof -
  define limit :: rat where "limit = of_int (parseInt ((1 - 2 / 10) * of_nat (length D)))"
  have "nat \<lceil>limit\<rceil> - length ([] :: 'b jsarray) \<le> length D"
    using default_train_size [of "length D"] by (simp add: limit_def)
  from sample_while_in_range [OF assms this, of "mt19937_seed R (or_default (Some S) 0)"]
  obtain drawn pool' e' where
    run: "sample_while R limit [] D (mt19937_seed R (or_default (Some S) 0)) = Some (drawn, pool', e')"
    and ms: "mset drawn + mset pool' = mset D"
    by auto
  from ms have "size (mset drawn + mset pool') = size (mset D)" by simp
  then have len: "length drawn + length pool' = length D" by simp
  have "train_test_split R D \<lparr>test_size = None, train_size = None, random_state = Some S,
        return_array = None, parse_int_train_size = None\<rparr> = Some (TrainTest drawn pool')"
    using run by (simp add: train_test_split_def Let_def truthy_num_def or_default_def limit_def)
  with ms len show ?thesis by blast
qed

text \<open>The theorem at a five-row dataset, seed 7, with the counter generator.\<close>

theorem train_test_split_partition_witness:
  "draws_in_range counter_random \<and>
   (\<exists>tr te.
      train_test_split counter_random [Some (20::nat), Some 25, Some 10, Some 33, Some 50]
        \<lparr>test_size = None, train_size = None, random_state = Some 7,
         return_array = None, parse_int_train_size = None\<rparr> = Some (TrainTest tr te)
      \<and> length tr + length te = length [Some (20::nat), Some 25, Some 10, Some 33, Some 50]
      \<and> mset tr + mset te = mset [Some (20::nat), Some 25, Some 10, Some 33, Some 50])"
  using train_test_split_partition [OF counter_random_in_range,
      of "[Some (20::nat), Some 25, Some 10, Some 33, Some 50]" 7]
    counter_random_in_range
  by simp

lemma defined_append: "defined (xs @ ys) = defined xs @ defined ys"
  by (induction xs rule: defined.induct) simp_all

lemma defined_concat: "defined (concat xss) = concat (map defined xss)"
  by (induction xss) (simp_all add: defined_append)

lemma defined_map_Some: "defined (map Some xs) = xs"
  by (induction xs) simp_all

lemma Some_in_set_iff: "Some p \<in> set arr \<longleftrightarrow> p \<in> set (defined arr)"
  by (induction arr rule: defined.induct) auto

lemma entries_simps [simp]:
  "entries [] = {#}"
  "entries (None # arr) = entries arr"
  "entries (Some x # arr) = add_mset x (entries arr)"
  "entries (xs @ ys) = entries xs + entries ys"
  by (simp_all add: entries_def defined_append)

lemma entries_remove_nth:
  assumes "i < length arr"
  shows "entries [arr ! i] + (entries (take i arr) + entries (drop (Suc i) arr)) = entries arr"
proof -
  have "entries arr = entries (take i arr @ [arr ! i] @ drop (Suc i) arr)"
    using id_take_nth_drop [OF assms] by simp
  also have "\<dots> = entries (take i arr) + (entries [arr ! i] + entries (drop (Suc i) arr))"
    by (simp only: entries_simps(4))
  finally show ?thesis by (simp add: ac_simps)
qed

lemma splice1_entries:
  assumes "splice1 arr index = (removed, rest)"
  shows "entries [removed] + entries rest = entries arr"
  using splice1_cases [of arr index] assms
  by (auto simp: entries_remove_nth)

lemma sample_while_returns:
  "draws_return R \<Longrightarrow>
    \<exists>drawn pool' e'. sample_while R limit acc pool e = Some (acc @ drawn, pool', e')
      \<and> entries drawn + entries pool' = entries pool
      \<and> length (acc @ drawn) = max (length acc) (nat \<lceil>limit\<rceil>)"
proof (induction R limit acc pool e rule: sample_while.induct)
  case (1 R limit acc pool e)
  show ?case
  proof (cases "of_nat (length acc) < limit")
    case False
    then have "\<lceil>limit\<rceil> \<le> int (length acc)"
      by (simp add: ceiling_le_iff)
    then have "max (length acc) (nat \<lceil>limit\<rceil>) = length acc" by linarith
    with False show ?thesis
      by (subst sample_while.simps) simp
  next
    case True
    then have lt: "int (length acc) < \<lceil>limit\<rceil>"
      by (simp add: less_ceiling_iff)
    from "1.prems" obtain i e1 where
      draw: "integer R 0 (int (length pool) - 1) e = Some (i, e1)"
      unfolding draws_return_def by fastforce
    obtain x pool1 where sp: "splice1 pool i = (x, pool1)"
      by (cases "splice1 pool i")
    from "1.IH" [OF True draw refl sp [symmetric] "1.prems"]
    obtain drawn pool' e' where
      rec: "sample_while R limit (acc @ [x]) pool1 e1 = Some ((acc @ [x]) @ drawn, pool', e')"
      and ms: "entries drawn + entries pool' = entries pool1"
      and ln: "length ((acc @ [x]) @ drawn) = max (length (acc @ [x])) (nat \<lceil>limit\<rceil>)"
      by blast
    have "sample_while R limit acc pool e = Some (acc @ (x # drawn), pool', e')"
      using True draw sp rec by (subst sample_while.simps) simp
    moreover have "entries (x # drawn) + entries pool' = entries pool"
    proof -
      have "entries (x # drawn) = entries [x] + entries drawn"
        by (metis append_Cons append_Nil entries_simps(4))
      with splice1_entries [OF sp] ms show ?thesis by (simp add: add.assoc)
    qed
    moreover have "length (acc @ (x # drawn)) = max (length acc) (nat \<lceil>limit\<rceil>)"
      using ln lt by simp
    ultimately show ?thesis by blast
  qed
qed

lemma fold_loop_returns:
  "draws_return R \<Longrightarrow>
    \<exists>new pool' e'. fold_loop R foldsize n dataset_split pool e = Some (dataset_split @ new, pool', e')
      \<and> length new = n
      \<and> (\<forall>f \<in> set new. length f = nat \<lceil>foldsize\<rceil>)
      \<and> entries (concat new) + entries pool' = entries pool"
proof (induction n arbitrary: dataset_split pool e)
  case 0
  then show ?case by simp
next
  case (Suc n)
  from sample_while_returns [OF Suc.prems, of foldsize "[]" pool e]
  obtain f pool1 e1 where
    s: "sample_while R foldsize [] pool e = Some (f, pool1, e1)"
    and ms: "entries f + entries pool1 = entries pool"
    and ln: "length f = nat \<lceil>foldsize\<rceil>"
    by auto
  from Suc.IH [OF Suc.prems, of "dataset_split @ [f]" pool1 e1]
  obtain new pool' e' where
    r: "fold_loop R foldsize n (dataset_split @ [f]) pool1 e1 = Some ((dataset_split @ [f]) @ new, pool', e')"
    and n: "length new = n"
    and a: "\<forall>g \<in> set new. length g = nat \<lceil>foldsize\<rceil>"
    and m: "entries (concat new) + entries pool' = entries pool1"
    by blast
  have "fold_loop R foldsize (Suc n) dataset_split pool e = Some (dataset_split @ (f # new), pool', e')"
    using s r by simp
  moreover have "length (f # new) = Suc n" using n by simp
  moreover have "\<forall>g \<in> set (f # new). length g = nat \<lceil>foldsize\<rceil>" using a ln by simp
  moreover have "entries (concat (f # new)) + entries pool' = entries pool"
    using m ms by (simp add: add.assoc)
  ultimately show ?case by blast
qed

lemma untag_tagged: "map untag (tagged dataset) = dataset"
proof -
  have "untag \<circ> Some = (snd :: nat \<times> 'a option \<Rightarrow> 'a option)"
    by (auto simp: untag_def fun_eq_iff)
  then show ?thesis by (simp add: tagged_def map_snd_enumerate)
qed

lemma splice1_map:
  assumes "f None = None"
  shows "splice1 (map f arr) index = (case splice1 arr index of (x, rest) \<Rightarrow> (f x, map f rest))"
proof -
  define len where "len = int (length arr)"
  define start where "start = (if index < 0 then max (len + index) 0 else min index len)"
  have s0: "0 \<le> start" by (auto simp: start_def len_def)
  have eq: "splice1 arr index =
      (if start < len then (arr ! nat start, take (nat start) arr @ drop (Suc (nat start)) arr)
       else (None, arr))"
    unfolding splice1_def Let_def start_def len_def ..
  have eqm: "splice1 (map f arr) index =
      (if start < len
       then (map f arr ! nat start, take (nat start) (map f arr) @ drop (Suc (nat start)) (map f arr))
       else (None, map f arr))"
    by (simp only: splice1_def Let_def start_def len_def length_map)
  show ?thesis
  proof (cases "start < len")
    case True
    with s0 have "nat start < length arr" by (simp add: len_def)
    with True eq eqm show ?thesis by (simp add: take_map drop_map)
  next
    case False
    with eq eqm assms show ?thesis by simp
  qed
qed

lemma sample_while_map:
  "f None = None \<Longrightarrow>
   sample_while R limit (map f acc) (map f pool) e
     = map_option (\<lambda>(a, p, e'). (map f a, map f p, e')) (sample_while R limit acc pool e)"
proof (induction R limit acc pool e rule: sample_while.induct)
  case (1 R limit acc pool e)
  show ?case
  proof (cases "of_nat (length acc) < limit")
    case False
    then show ?thesis
      by (subst (1 2) sample_while.simps) simp
  next
    case True
    show ?thesis
    proof (cases "integer R 0 (int (length pool) - 1) e")
      case None
      with True show ?thesis by (subst (1 2) sample_while.simps) simp
    next
      case (Some r)
      obtain i e1 where r: "r = (i, e1)" by (cases r)
      obtain x pool1 where sp: "splice1 pool i = (x, pool1)" by (cases "splice1 pool i")
      have spm: "splice1 (map f pool) i = (f x, map f pool1)"
        using splice1_map [of f pool i] "1.prems" sp by simp
      from "1.IH" [OF True Some [unfolded r] refl sp [symmetric] "1.prems"]
      have "sample_while R limit (map f (acc @ [x])) (map f pool1) e1
          = map_option (\<lambda>(a, p, e'). (map f a, map f p, e')) (sample_while R limit (acc @ [x]) pool1 e1)" .
      with True Some r sp spm show ?thesis
        by (subst (1 2) sample_while.simps) simp
    qed
  qed
qed

lemma fold_loop_map:
  "f None = None \<Longrightarrow>
   fold_loop R foldsize n (map (map f) dataset_split) (map f pool) e
     = map_option (\<lambda>(s, p, e'). (map (map f) s, map f p, e')) (fold_loop R foldsize n dataset_split pool e)"
proof (induction n arbitrary: dataset_split pool e)
  case 0
  then show ?case by simp
next
  case (Suc n)
  have sw: "sample_while R foldsize [] (map f pool) e
      = map_option (\<lambda>(a, p, e'). (map f a, map f p, e')) (sample_while R foldsize [] pool e)"
    using sample_while_map [of f R foldsize "[]" pool e] Suc.prems by simp
  show ?case
  proof (cases "sample_while R foldsize [] pool e")
    case None
    with sw show ?thesis by simp
  next
    case (Some r)
    obtain fd pool1 e1 where r: "r = (fd, pool1, e1)" by (cases r)
    from Suc.IH [OF Suc.prems, of "dataset_split @ [fd]" pool1 e1] Some r sw
    show ?thesis by simp
  qed
qed

lemma cross_validation_split_map:
  "f None = None \<Longrightarrow>
   cross_validation_split R (map f dataset) options
     = map_option (map (map f)) (cross_validation_split R dataset options)"
  using fold_loop_map [of f R _ _ "[]" dataset]
  by (simp add: cross_validation_split_def Let_def option.map_comp comp_def case_prod_unfold)

lemma count_concat_twice:
  assumes "i < j" "j < length xss" "x \<in> set (xss ! i)" "x \<in> set (xss ! j)"
  shows "2 \<le> count (mset (concat xss)) x"
proof -
  have split: "xss = take j xss @ xss ! j # drop (Suc j) xss"
    using assms(2) by (rule id_take_nth_drop)
  have "xss ! i = take j xss ! i" using assms(1) by simp
  moreover have "i < length (take j xss)" using assms(1,2) by simp
  ultimately have "xss ! i \<in> set (take j xss)" by (metis nth_mem)
  with assms(3) have "x \<in> set (concat (take j xss))" by auto
  then have a: "1 \<le> count (mset (concat (take j xss))) x" by (simp add: Suc_le_eq)
  from assms(4) have b: "1 \<le> count (mset (xss ! j)) x" by (simp add: Suc_le_eq)
  have "mset (concat xss)
      = mset (concat (take j xss)) + mset (xss ! j) + mset (concat (drop (Suc j) xss))"
    by (subst split) simp
  then have "count (mset (concat xss)) x
      = count (mset (concat (take j xss))) x + count (mset (xss ! j)) x
        + count (mset (concat (drop (Suc j) xss))) x"
    by simp
  with a b show ?thesis by linarith
qed

section \<open>cross\_validation\_split\<close>

text \<open>
  C3. For every dataset and every options object (so for every fold count \<open>k \<ge> 1\<close>), no
  position of the dataset is assigned to two different folds by one call of
  \<^verbatim>\<open>cross_validation_split\<close>. The split is followed on the dataset whose entries carry
  their positions; the folds of the dataset itself are the same folds without the
  positions. The generator is any one whose draws return.
\<close>

theorem folds_disjoint:
  assumes "draws_return R"
  shows "\<exists>fs. cross_validation_split R (tagged dataset) options = Some fs
    \<and> cross_validation_split R dataset options = Some (map (map untag) fs)
    \<and> (\<forall>i < length fs. \<forall>j < length fs. \<forall>p.
          Some p \<in> set (fs ! i) \<longrightarrow> Some p \<in> set (fs ! j) \<longrightarrow> i = j)"
proof -
  define k where "k = or_default (folds options) 3"
  define foldsize :: rat where
    "foldsize = of_int (parseInt (of_nat (length dataset) / of_int (or_default (Some k) 3)))"
  define e where "e = mt19937_seed R (or_default (cvs_random_state options) 0)"
  from fold_loop_returns [OF assms, of foldsize "range_length k" "[]" "tagged dataset" e]
  obtain fs pool' e' where
    run: "fold_loop R foldsize (range_length k) [] (tagged dataset) e = Some (fs, pool', e')"
    and ms: "entries (concat fs) + entries pool' = entries (tagged dataset)"
    by auto
  have len: "length (tagged dataset) = length dataset" by (simp add: tagged_def)
  have res: "cross_validation_split R (tagged dataset) options = Some fs"
    using run by (simp add: cross_validation_split_def Let_def k_def foldsize_def e_def len)
  have "untag None = None" by (simp add: untag_def)
  from cross_validation_split_map [of untag R "tagged dataset" options] this res
  have res': "cross_validation_split R dataset options = Some (map (map untag) fs)"
    by (simp add: untag_tagged)
  have "entries (tagged dataset) = mset (enumerate 0 dataset)"
    by (simp add: entries_def tagged_def defined_map_Some)
  with ms have sub: "entries (concat fs) \<subseteq># mset (enumerate 0 dataset)"
    by (metis mset_subset_eq_add_left)
  have once: "count (entries (concat fs)) p \<le> 1" for p
  proof -
    have "count (entries (concat fs)) p \<le> count (mset (enumerate 0 dataset)) p"
      using sub by (rule mset_subset_eq_count)
    also have "\<dots> \<le> 1"
    proof -
      have "count (mset (enumerate 0 dataset)) p
          = (if p \<in> set (enumerate 0 dataset) then 1 else 0)"
        using distinct_enumerate [of 0 dataset] unfolding distinct_count_atmost_1 by (rule spec)
      then show ?thesis by simp
    qed
    finally show ?thesis .
  qed
  have disj: "i = j" if ij: "i < length fs" "j < length fs"
    and pi: "Some p \<in> set (fs ! i)" and pj: "Some p \<in> set (fs ! j)" for i j p
  proof (rule ccontr)
    assume "i \<noteq> j"
    define ps where "ps = map defined fs"
    have mem: "p \<in> set (ps ! i)" "p \<in> set (ps ! j)"
      using ij pi pj by (simp_all add: ps_def Some_in_set_iff)
    have "2 \<le> count (mset (concat ps)) p"
    proof (cases "i < j")
      case True
      then show ?thesis using count_concat_twice [of i j ps p] ij mem by (simp add: ps_def)
    next
      case False
      with \<open>i \<noteq> j\<close> have "j < i" by simp
      then show ?thesis using count_concat_twice [of j i ps p] ij mem by (simp add: ps_def)
    qed
    with once [of p] show False by (simp add: entries_def defined_concat ps_def)
  qed
  from res res' disj show ?thesis by blast
qed

lemma counter_random_returns: "draws_return counter_random"
  by (simp add: draws_return_def counter_random_def)

text \<open>The theorem at a four-row dataset, 2 folds, with the counter generator.\<close>

theorem folds_disjoint_witness:
  "draws_return counter_random \<and>
   (\<exists>fs. cross_validation_split counter_random (tagged [Some (20::nat), Some 25, Some 10, Some 33])
            \<lparr>folds = Some 2, cvs_random_state = Some 0\<rparr> = Some fs
      \<and> cross_validation_split counter_random [Some (20::nat), Some 25, Some 10, Some 33]
            \<lparr>folds = Some 2, cvs_random_state = Some 0\<rparr> = Some (map (map untag) fs)
      \<and> (\<forall>i < length fs. \<forall>j < length fs. \<forall>p.
            Some p \<in> set (fs ! i) \<longrightarrow> Some p \<in> set (fs ! j) \<longrightarrow> i = j))"
  using folds_disjoint [OF counter_random_returns,
      of "[Some (20::nat), Some 25, Some 10, Some 33]" "\<lparr>folds = Some 2, cvs_random_state = Some 0\<rparr>"]
    counter_random_returns
  by simp

lemma cross_validation_split_lengths:
  assumes "draws_return R"
  shows "\<exists>fs. cross_validation_split R dataset options = Some fs
    \<and> length fs = range_length (or_default (folds options) 3)
    \<and> map length fs = replicate (length fs)
         (nat (parseInt (of_nat (length dataset) / of_int (or_default (folds options) 3))))"
proof -
  define k where "k = or_default (folds options) 3"
  have k: "or_default (Some k) 3 = k" by (simp add: k_def or_default_def split: option.splits)
  define foldsize :: rat where "foldsize = of_int (parseInt (of_nat (length dataset) / of_int k))"
  define e where "e = mt19937_seed R (or_default (cvs_random_state options) 0)"
  from fold_loop_returns [OF assms, of foldsize "range_length k" "[]" dataset e]
  obtain fs pool' e' where
    run: "fold_loop R foldsize (range_length k) [] dataset e = Some (fs, pool', e')"
    and ln: "length fs = range_length k"
    and sz: "\<forall>f \<in> set fs. length f = nat \<lceil>foldsize\<rceil>"
    by auto
  have "cross_validation_split R dataset options = Some fs"
    using run by (simp add: cross_validation_split_def Let_def k k_def [symmetric] foldsize_def e_def)
  moreover from sz have "map length fs = replicate (length fs) (nat (parseInt (of_nat (length dataset) / of_int k)))"
    by (simp add: foldsize_def map_replicate_const [symmetric] cong: map_cong)
  ultimately show ?thesis using ln by (simp add: k_def)
qed

lemma parseInt_tiny: "parseInt (of_nat (length [Some (20::nat)]) / of_int 10000000) = 1"
  by code_simp

text \<open>
  C4. The claim is that every fold has length \<open>\<lfloor>n / k\<rfloor>\<close>. The fold size is computed as
  \<^verbatim>\<open>parseInt(dataset.length / folds, 10)\<close>, which reads the leading digit of a quotient
  below \<open>10\<^sup>-\<^sup>6\<close> (\<^verbatim>\<open>parseInt("1e-7") = 1\<close>): for one row and 10000000 folds every
  fold has length 1, while \<open>\<lfloor>1 / 10000000\<rfloor> = 0\<close>.
\<close>

theorem tiny_quotient_folds:
  "\<exists>fs. cross_validation_split counter_random [Some (20::nat)]
            \<lparr>folds = Some 10000000, cvs_random_state = None\<rparr> = Some fs
     \<and> length fs = 10000000
     \<and> map length fs = replicate 10000000 1
     \<and> length [Some (20::nat)] div 10000000 = 0"
proof -
  from cross_validation_split_lengths [OF counter_random_returns,
      of "[Some (20::nat)]" "\<lparr>folds = Some 10000000, cvs_random_state = None\<rparr>"]
  obtain fs where
    "cross_validation_split counter_random [Some (20::nat)]
        \<lparr>folds = Some 10000000, cvs_random_state = None\<rparr> = Some fs"
    "length fs = 10000000" "map length fs = replicate (length fs) 1"
    by (auto simp: or_default_def range_length_def parseInt_tiny [simplified])
  then show ?thesis by simp
qed

lemma sample_while_nonpositive:
  "limit \<le> 0 \<Longrightarrow> sample_while R limit [] pool e = Some ([], pool, e)"
  by (subst sample_while.simps) simp

lemma fold_loop_nonpositive:
  "foldsize \<le> 0 \<Longrightarrow>
   fold_loop R foldsize n dataset_split pool e = Some (dataset_split @ replicate n [], pool, e)"
proof (induction n arbitrary: dataset_split)
  case 0
  then show ?case by simp
next
  case (Suc n)
  from Suc.IH [OF Suc.prems, of "dataset_split @ [[]]"] Suc.prems show ?case
    by (simp add: sample_while_nonpositive replicate_app_Cons_same)
qed

text \<open>
  C6, as stated: a \<open>folds\<close> option \<open>\<le> 0\<close> raises an invalid-configuration failure and
  is not replaced by a default. The code has no check: \<^verbatim>\<open>options.folds || 3\<close> replaces
  \<open>0\<close> by \<open>3\<close>, and \<^verbatim>\<open>range(-2)\<close> has two entries, so both calls return folds.
\<close>

theorem nonpositive_folds_counterexample:
  "cross_validation_split counter_random [Some (20::nat), Some 25, Some 10]
      \<lparr>folds = Some 0, cvs_random_state = None\<rparr> = Some [[Some 20], [Some 10], [Some 25]]
   \<and> cross_validation_split counter_random [Some (20::nat), Some 25, Some 10]
      \<lparr>folds = Some (- 2), cvs_random_state = None\<rparr> = Some [[], []]"
  by code_simp

text \<open>
  C6, amended: for every dataset, \<^verbatim>\<open>cross_validation_split\<close> raises no failure for a
  \<open>folds\<close> option \<open>\<le> 0\<close>. With \<open>folds = 0\<close> the default 3 takes its place: the result
  is that of \<open>folds = 3\<close>, three folds. With a negative \<open>folds = k\<close> the result is \<open>-k\<close>
  empty folds.
\<close>

theorem nonpositive_folds:
  assumes "draws_return R"
  shows "cross_validation_split R dataset \<lparr>folds = Some 0, cvs_random_state = s\<rparr>
      = cross_validation_split R dataset \<lparr>folds = Some 3, cvs_random_state = s\<rparr>
    \<and> (\<exists>fs. cross_validation_split R dataset \<lparr>folds = Some 0, cvs_random_state = s\<rparr> = Some fs
          \<and> length fs = 3)
    \<and> (k < 0 \<longrightarrow>
          cross_validation_split R dataset \<lparr>folds = Some k, cvs_random_state = s\<rparr>
            = Some (replicate (nat (- k)) []))"
proof (intro conjI impI)
  show "cross_validation_split R dataset \<lparr>folds = Some 0, cvs_random_state = s\<rparr>
      = cross_validation_split R dataset \<lparr>folds = Some 3, cvs_random_state = s\<rparr>"
    by (simp add: cross_validation_split_def or_default_def)
  from cross_validation_split_lengths [OF assms, of dataset "\<lparr>folds = Some 0, cvs_random_state = s\<rparr>"]
  show "\<exists>fs. cross_validation_split R dataset \<lparr>folds = Some 0, cvs_random_state = s\<rparr> = Some fs
          \<and> length fs = 3"
    by (auto simp: or_default_def range_length_def)
next
  assume k: "k < 0"
  have "rat_of_nat (length dataset) / rat_of_int k \<le> 0"
    using k by (simp add: divide_le_0_iff)
  then have "parseInt (rat_of_nat (length dataset) / rat_of_int k) \<le> 0"
    by (rule parseInt_nonpos)
  then have "(rat_of_int (parseInt (rat_of_nat (length dataset) / rat_of_int k))) \<le> 0"
    by simp
  from fold_loop_nonpositive [OF this, of R "nat (- k)" "[]" dataset
      "mt19937_seed R (or_default s 0)"]
  have "fold_loop R (rat_of_int (parseInt (rat_of_nat (length dataset) / rat_of_int k)))
      (nat (- k)) [] dataset (mt19937_seed R (or_default s 0))
      = Some (replicate (nat (- k)) [], dataset, mt19937_seed R (or_default s 0))"
    by simp
  moreover have "or_default (Some k) 3 = k" using k by (simp add: or_default_def)
  moreover have "range_length k = nat (- k)" using k by (simp add: range_length_def)
  ultimately show "cross_validation_split R dataset \<lparr>folds = Some k, cvs_random_state = s\<rparr>
            = Some (replicate (nat (- k)) [])"
    by (simp add: cross_validation_split_def Let_def)
qed

text \<open>The theorem at a three-row dataset, with \<open>folds = -2\<close> and the counter generator.\<close>

theorem nonpositive_folds_witness:
  "draws_return counter_random \<and> (- 2 :: int) < 0 \<and>
   cross_validation_split counter_random [Some (20::nat), Some 25, Some 10]
      \<lparr>folds = Some (- 2), cvs_random_state = Some 5\<rparr> = Some [[], []]
   \<and> (\<exists>fs. cross_validation_split counter_random [Some (20::nat), Some 25, Some 10]
             \<lparr>folds = Some 0, cvs_random_state = Some 5\<rparr> = Some fs \<and> length fs = 3)"
proof -
  note t = nonpositive_folds [OF counter_random_returns,
      of "[Some (20::nat), Some 25, Some 10]" "Some 5" "- 2"]
  have neg: "(- 2 :: int) < 0" by simp
  from t neg have "cross_validation_split counter_random [Some (20::nat), Some 25, Some 10]
      \<lparr>folds = Some (- 2), cvs_random_state = Some 5\<rparr> = Some (replicate (nat (- (- 2))) [])"
    by blast
  then have a: "cross_validation_split counter_random [Some (20::nat), Some 25, Some 10]
      \<lparr>folds = Some (- 2), cvs_random_state = Some 5\<rparr> = Some [[], []]"
    by (simp add: numeral_2_eq_2)
  from t have b: "\<exists>fs. cross_validation_split counter_random [Some (20::nat), Some 25, Some 10]
             \<lparr>folds = Some 0, cvs_random_state = Some 5\<rparr> = Some fs \<and> length fs = 3"
    by blast
  from a b neg counter_random_returns show ?thesis by blast
qed

lemma fold_loop_in_range:
  "draws_in_range R \<Longrightarrow> n * nat \<lceil>foldsize\<rceil> \<le> length pool \<Longrightarrow>
    \<exists>new pool' e'. fold_loop R foldsize n dataset_split pool e = Some (dataset_split @ new, pool', e')
      \<and> length new = n
      \<and> (\<forall>f \<in> set new. length f = nat \<lceil>foldsize\<rceil>)
      \<and> mset (concat new) + mset pool' = mset pool"
proof (induction n arbitrary: dataset_split pool e)
  case 0
  then show ?case by simp
next
  case (Suc n)
  from Suc.prems(2) have "nat \<lceil>foldsize\<rceil> - length ([] :: 'b jsarray) \<le> length pool"
    by simp
  from sample_while_in_range [OF Suc.prems(1) this, of e]
  obtain f pool1 e1 where
    s: "sample_while R foldsize [] pool e = Some (f, pool1, e1)"
    and ms: "mset f + mset pool1 = mset pool"
    and ln: "length f = nat \<lceil>foldsize\<rceil>"
    by auto
  from ms have "size (mset f + mset pool1) = size (mset pool)" by simp
  then have "length f + length pool1 = length pool" by simp
  with ln Suc.prems(2) have "n * nat \<lceil>foldsize\<rceil> \<le> length pool1" by simp
  from Suc.IH [OF Suc.prems(1) this, of "dataset_split @ [f]" e1]
  obtain new pool' e' where
    r: "fold_loop R foldsize n (dataset_split @ [f]) pool1 e1 = Some ((dataset_split @ [f]) @ new, pool', e')"
    and n: "length new = n"
    and a: "\<forall>g \<in> set new. length g = nat \<lceil>foldsize\<rceil>"
    and m: "mset (concat new) + mset pool' = mset pool1"
    by blast
  have "fold_loop R foldsize (Suc n) dataset_split pool e = Some (dataset_split @ (f # new), pool', e')"
    using s r by simp
  moreover have "length (f # new) = Suc n" using n by simp
  moreover have "\<forall>g \<in> set (f # new). length g = nat \<lceil>foldsize\<rceil>" using a ln by simp
  moreover have "mset (concat (f # new)) + mset pool' = mset pool"
    using m ms by (simp add: add.assoc)
  ultimately show ?case by blast
qed

lemma parseInt_quotient:
  assumes "0 < k" "n = 0 \<or> k \<le> 10 ^ 6 * n" "n < 10 ^ 21 * k"
  shows "parseInt (of_nat n / of_nat k) = int (n div k)"
proof (cases "n = 0")
  case True
  then show ?thesis by (simp add: parseInt_def)
next
  case False
  define x :: rat where "x = of_nat n / of_nat k"
  from False assms(2) have "k \<le> 10 ^ 6 * n" by simp
  then have "(of_nat k :: rat) \<le> of_nat (10 ^ 6 * n)" by (simp only: of_nat_le_iff)
  then have "(of_nat k :: rat) \<le> 10 ^ 6 * of_nat n" by simp
  then have lo: "1 / 10 ^ 6 \<le> x"
    using assms(1) by (simp add: x_def field_simps)
  from assms(3) have "(of_nat n :: rat) < of_nat (10 ^ 21 * k)" by (simp only: of_nat_less_iff)
  then have "(of_nat n :: rat) < 10 ^ 21 * of_nat k" by simp
  then have hi: "x < 10 ^ 21"
    using assms(1) by (simp add: x_def field_simps)
  have "\<lfloor>x\<rfloor> = int n div int k"
    unfolding x_def using floor_divide_of_int_eq [of "int n" "int k", where ?'a = rat] by simp
  with parseInt_positional [OF lo hi] show ?thesis
    by (simp add: x_def zdiv_int)
qed

text \<open>
  Where the quotient \<open>n / k\<close> is 0 or at least \<open>10\<^sup>-\<^sup>6\<close> (and below \<open>10\<^sup>2\<^sup>1\<close>), the fold
  size is \<open>\<lfloor>n / k\<rfloor>\<close>: there are \<open>k\<close> folds of that length, \<open>k * \<lfloor>n / k\<rfloor>\<close> rows in all, and
  the \<open>n mod k\<close> rows left in the working copy are in no fold.
\<close>

lemma cross_validation_split_sizes:
  assumes "draws_in_range R" and "0 < k"
    and "length dataset = 0 \<or> k \<le> 10 ^ 6 * length dataset" and "length dataset < 10 ^ 21 * k"
  shows "\<exists>fs rest. cross_validation_split R dataset \<lparr>folds = Some (int k), cvs_random_state = s\<rparr> = Some fs
    \<and> length fs = k
    \<and> (\<forall>f \<in> set fs. length f = length dataset div k)
    \<and> length (concat fs) = k * (length dataset div k)
    \<and> mset (concat fs) + mset rest = mset dataset
    \<and> length rest = length dataset mod k"
proof -
  define n where "n = length dataset"
  define foldsize :: rat where "foldsize = of_int (parseInt (of_nat n / of_int (int k)))"
  have fsz: "foldsize = of_nat (n div k)"
    using parseInt_quotient [of k n] assms(2-4) by (simp add: foldsize_def n_def)
  then have c: "nat \<lceil>foldsize\<rceil> = n div k" by simp
  define e where "e = mt19937_seed R (or_default s 0)"
  have "k * nat \<lceil>foldsize\<rceil> \<le> length dataset"
    unfolding c n_def by simp
  from fold_loop_in_range [OF assms(1) this, of "[]" e]
  obtain fs rest e' where
    run: "fold_loop R foldsize k [] dataset e = Some (fs, rest, e')"
    and ln: "length fs = k"
    and sz: "\<forall>f \<in> set fs. length f = n div k"
    and ms: "mset (concat fs) + mset rest = mset dataset"
    unfolding c by auto
  have k3: "or_default (Some (int k)) 3 = int k" using assms(2) by (simp add: or_default_def)
  have rl: "range_length (int k) = k" using assms(2) by (simp add: range_length_def)
  have res: "cross_validation_split R dataset \<lparr>folds = Some (int k), cvs_random_state = s\<rparr> = Some fs"
    using run by (simp add: cross_validation_split_def Let_def k3 rl foldsize_def e_def n_def)
  have "length (concat fs) = sum_list (map length fs)" by (simp add: length_concat)
  also have "map length fs = replicate k (n div k)"
  proof -
    have "map length fs = map (\<lambda>f. n div k) fs" using sz by simp
    also have "\<dots> = replicate (length fs) (n div k)" by (rule map_replicate_const)
    finally show ?thesis using ln by simp
  qed
  finally have tot: "length (concat fs) = k * (n div k)" by (simp add: sum_list_replicate)
  from ms have "size (mset (concat fs) + mset rest) = size (mset dataset)" by simp
  then have "length (concat fs) + length rest = n" by (simp add: n_def)
  with tot have "length rest = n mod k"
    by (metis add_diff_cancel_left' minus_mult_div_eq_mod)
  with res ln sz tot ms show ?thesis unfolding n_def by blast
qed

lemma score_fold_regression:
  assumes "data_total C" "cfg_regression config = Some True"
  shows "score_fold C config x a c fd = Inr (None, c)"
proof -
  from assms(1) obtain ds where ds: "new_DataSet C (Some fd) = Inr ds"
    unfolding data_total_def by blast
  from assms(1) obtain xt where xt: "columnMatrix C ds (with_default (cfg_dependentFeatures config) [[''X'']]) = Inr xt"
    unfolding data_total_def by blast
  from assms(1) obtain yt where yt: "columnMatrix C ds (with_default (cfg_independentFeatures config) [[''Y'']]) = Inr yt"
    unfolding data_total_def by blast
  from assms(1) obtain xm where xm: "new_Matrix C xt = Inr xm"
    unfolding data_total_def by blast
  from assms(1) obtain ym where ym: "new_Matrix C yt = Inr ym"
    unfolding data_total_def by blast
  show ?thesis
    by (simp add: score_fold_def and_then_def ds xt yt xm ym assms(2))
qed

lemma score_folds_regression:
  assumes "data_total C" "cfg_regression config = Some True"
  shows "score_folds C config x a c fs = Inr (replicate (length fs) None)"
  by (induction fs) (simp_all add: score_fold_regression [OF assms] and_then_def)

section \<open>The splitters on the store\<close>

text \<open>
  On the store, each splitter computes what the functions on values compute, allocates
  its result after the arrays that exist, and changes none of those.
\<close>

lemma sample_while_st_refines:
  "acc \<noteq> pool \<Longrightarrow> acc < length h \<Longrightarrow> pool < length h \<Longrightarrow> h ! acc = accv \<Longrightarrow> h ! pool = poolv \<Longrightarrow>
   sample_while_st R limit acc pool h e
     = map_option (\<lambda>(a', p', e'). (h[pool := p', acc := a'], e')) (sample_while R limit accv poolv e)"
proof (induction R limit accv poolv e arbitrary: h rule: sample_while.induct)
  case (1 R limit accv poolv e)
  show ?case
  proof (cases "of_nat (length accv) < limit")
    case False
    have "h[pool := poolv, acc := accv] = h"
      unfolding "1.prems"(4,5) [symmetric] by simp
    with False "1.prems" show ?thesis
      by (subst sample_while_st.simps, subst sample_while.simps) simp
  next
    case True
    show ?thesis
    proof (cases "integer R 0 (int (length poolv) - 1) e")
      case None
      with True "1.prems" show ?thesis
        by (subst sample_while_st.simps, subst sample_while.simps) simp
    next
      case (Some r)
      obtain i e1 where r: "r = (i, e1)" by (cases r)
      obtain x pool1 where sp: "splice1 poolv i = (x, pool1)" by (cases "splice1 poolv i")
      define h' where "h' = store_push (h[pool := pool1]) acc x"
      have h': "h' = h[pool := pool1, acc := accv @ [x]]"
        using "1.prems" by (simp add: h'_def store_push_def)
      have a: "h' ! acc = accv @ [x]" using "1.prems" by (simp add: h')
      have p: "h' ! pool = pool1" using "1.prems" by (simp add: h')
      have l: "acc < length h'" "pool < length h'" using "1.prems" by (simp_all add: h')
      from "1.IH" [OF True Some [unfolded r] refl sp [symmetric] "1.prems"(1) l a p]
      have ih: "sample_while_st R limit acc pool h' e1
          = map_option (\<lambda>(a', p', e'). (h'[pool := p', acc := a'], e'))
              (sample_while R limit (accv @ [x]) pool1 e1)" .
      have upd: "h'[pool := p', acc := a'] = h[pool := p', acc := a']" for p' a'
        using "1.prems"(1) by (simp add: h' list_update_swap)
      have "sample_while_st R limit acc pool h e = sample_while_st R limit acc pool h' e1"
        using True Some r sp "1.prems"
        by (subst sample_while_st.simps) (simp add: store_splice1_def h'_def)
      moreover have "sample_while R limit accv poolv e = sample_while R limit (accv @ [x]) pool1 e1"
        using True Some r sp by (subst sample_while.simps) simp
      ultimately show ?thesis by (simp add: ih upd)
    qed
  qed
qed

lemma train_test_split_st_refines:
  assumes "dataset < length h"
  shows "train_test_split_st R dataset options h
    = map_option (\<lambda>r. (case r of TrainTest tr te \<Rightarrow> TrainTestRef (length h) (Suc (length h))
                           | TrainTestArray tr te \<Rightarrow> TrainTestArrayRef (length h) (Suc (length h)),
                        h @ [train r, test r]))
        (train_test_split R (h ! dataset) options)"
proof -
  define h2 where "h2 = (h @ [[]]) @ [(h @ [[]]) ! dataset]"
  have h2: "h2 = h @ [[], h ! dataset]" using assms by (simp add: h2_def nth_append)
  have upd: "h2[Suc (length h) := p', length h := a'] = h @ [a', p']" for a' p'
    by (simp add: h2 list_update_append)
  have loop: "sample_while_st R limit (length h) (Suc (length h)) h2 e
      = map_option (\<lambda>(a', p', e'). (h @ [a', p'], e')) (sample_while R limit [] (h ! dataset) e)"
    for limit e
    using sample_while_st_refines [of "length h" "Suc (length h)" h2 "[]" "h ! dataset" R limit e]
    by (simp add: upd) (simp add: h2 nth_append)
  have d: "(h @ [[]]) ! dataset = h ! dataset" using assms by (simp add: nth_append)
  define e where "e = mt19937_seed R (or_default (random_state options) 0)"
  define ts where "ts =
     (if (case parse_int_train_size options of Some b \<Rightarrow> b | None \<Rightarrow> True)
      then of_int (parseInt
        (if truthy_num (train_size options)
         then or_default (train_size options) 0 * of_nat (length (h ! dataset))
         else (1 - or_default (test_size options) (2 / 10)) * of_nat (length (h ! dataset))))
      else (if truthy_num (train_size options)
         then or_default (train_size options) 0 * of_nat (length (h ! dataset))
         else (1 - or_default (test_size options) (2 / 10)) * of_nat (length (h ! dataset))))"
  have st: "train_test_split_st R dataset options h =
      (case sample_while_st R ts (length h) (Suc (length h)) h2 e of
         None \<Rightarrow> None
       | Some (h3, engine') \<Rightarrow>
           Some (if return_array options = Some True
                 then TrainTestArrayRef (length h) (Suc (length h))
                 else TrainTestRef (length h) (Suc (length h)), h3))"
    unfolding train_test_split_st_def Let_def h2_def ts_def e_def d length_append_singleton ..
  have pu: "train_test_split R (h ! dataset) options =
      (case sample_while R ts [] (h ! dataset) e of
         None \<Rightarrow> None
       | Some (training_set', dataset_copy', engine') \<Rightarrow>
           Some (if return_array options = Some True
                 then TrainTestArray training_set' dataset_copy'
                 else TrainTest training_set' dataset_copy'))"
    unfolding train_test_split_def Let_def ts_def e_def ..
  show ?thesis
    unfolding st pu loop
    by (cases "sample_while R ts [] (h ! dataset) e") auto
qed

lemma fold_loop_from_empty:
  "fold_loop R foldsize n dataset_split pool e
     = map_option (\<lambda>(new, rest, e'). (dataset_split @ new, rest, e')) (fold_loop R foldsize n [] pool e)"
proof (induction n arbitrary: dataset_split pool e)
  case 0
  show ?case by simp
next
  case (Suc n)
  show ?case
  proof (cases "sample_while R foldsize [] pool e")
    case None
    then show ?thesis by simp
  next
    case (Some r)
    obtain a p e1 where r: "r = (a, p, e1)" by (cases r)
    have "fold_loop R foldsize n (dataset_split @ [a]) p e1
        = map_option (\<lambda>(new, rest, e'). ((dataset_split @ [a]) @ new, rest, e')) (fold_loop R foldsize n [] p e1)"
      by (rule Suc.IH)
    moreover have "fold_loop R foldsize n [a] p e1
        = map_option (\<lambda>(new, rest, e'). ([a] @ new, rest, e')) (fold_loop R foldsize n [] p e1)"
      by (rule Suc.IH)
    ultimately show ?thesis using Some r
      by (simp add: option.map_comp comp_def case_prod_unfold)
  qed
qed

lemma fold_loop_st_refines:
  "pool < length h \<Longrightarrow>
   fold_loop_st R foldsize n dataset_split pool h e
     = map_option (\<lambda>(new, rest, e').
          (dataset_split @ [length h ..< length h + length new], h[pool := rest] @ new, e'))
        (fold_loop R foldsize n [] (h ! pool) e)"
proof (induction n arbitrary: dataset_split h e)
  case 0
  then show ?case by simp
next
  case (Suc n)
  define h1 where "h1 = h @ [[]]"
  have upd: "h1[pool := p', length h := a'] = h[pool := p'] @ [a']" for a' p'
    using Suc.prems by (simp add: h1_def list_update_append)
  have loop: "sample_while_st R foldsize (length h) pool h1 e
      = map_option (\<lambda>(a', p', e'). (h[pool := p'] @ [a'], e')) (sample_while R foldsize [] (h ! pool) e)"
    using sample_while_st_refines [of "length h" pool h1 "[]" "h ! pool" R foldsize e] Suc.prems
    by (simp add: upd) (simp add: h1_def nth_append)
  show ?case
  proof (cases "sample_while R foldsize [] (h ! pool) e")
    case None
    with loop show ?thesis by (simp add: h1_def [symmetric])
  next
    case (Some r)
    obtain a p e1 where r: "r = (a, p, e1)" by (cases r)
    define h2 where "h2 = h[pool := p] @ [a]"
    have l2: "pool < length h2" "length h2 = Suc (length h)" "h2 ! pool = p"
      using Suc.prems by (simp_all add: h2_def nth_append)
    have st: "fold_loop_st R foldsize (Suc n) dataset_split pool h e
        = fold_loop_st R foldsize n (dataset_split @ [length h]) pool h2 e1"
      using loop Some r by (simp add: h1_def [symmetric] h2_def)
    have pu: "fold_loop R foldsize (Suc n) [] (h ! pool) e
        = map_option (\<lambda>(new, rest, e'). ([a] @ new, rest, e')) (fold_loop R foldsize n [] p e1)"
      using Some r fold_loop_from_empty [of R foldsize n "[a]" p e1] by simp
    have h2u: "h2[pool := rest] = h[pool := rest] @ [a]" for rest
      using Suc.prems by (simp add: h2_def list_update_append)
    have up: "[length h ..< Suc (length h + m)] = length h # [Suc (length h) ..< Suc (length h + m)]" for m
      by (rule upt_conv_Cons) simp
    show ?thesis
      unfolding st pu Suc.IH [OF l2(1)] l2(2,3)
      by (simp add: option.map_comp comp_def case_prod_unfold h2u up del: upt_Suc)
  qed
qed

lemma cross_validation_split_st_refines:
  assumes "dataset < length h"
  shows "cross_validation_split_st R dataset options h
    = map_option (\<lambda>(new, rest, e').
          ([Suc (length h) ..< Suc (length h) + length new], h @ rest # new))
        (fold_loop R
           (of_int (parseInt (of_nat (length (h ! dataset))
              / of_int (or_default (Some (or_default (folds options) 3)) 3))))
           (range_length (or_default (folds options) 3)) [] (h ! dataset)
           (mt19937_seed R (or_default (cvs_random_state options) 0)))"
proof -
  define h1 where "h1 = h @ [h ! dataset]"
  have d: "h1 ! dataset = h ! dataset" using assms by (simp add: h1_def nth_append)
  have p: "length h < length h1" "h1 ! length h = h ! dataset" "length h1 = Suc (length h)"
    by (simp_all add: h1_def)
  have u: "h1[length h := rest] @ new = h @ rest # new" for rest new
    by (simp add: h1_def)
  show ?thesis
    unfolding cross_validation_split_st_def Let_def h1_def [symmetric] d
      fold_loop_st_refines [OF p(1)] p(2,3)
    by (simp add: option.map_comp comp_def case_prod_unfold u)
qed

lemma map_nth_append_upt: "map ((!) (xs @ ys)) [length xs ..< length xs + length ys] = ys"
  by (rule nth_equalityI) (simp_all add: nth_append)

lemma train_test_split_st_deref:
  assumes "dataset < length h"
  shows "map_option (\<lambda>(r, h'). deref_tts h' r) (train_test_split_st R dataset options h)
    = train_test_split R (h ! dataset) options"
proof (cases "train_test_split R (h ! dataset) options")
  case None
  then show ?thesis by (simp add: train_test_split_st_refines [OF assms])
next
  case (Some r)
  then show ?thesis
    by (cases r) (simp_all add: train_test_split_st_refines [OF assms] nth_append)
qed

lemma cross_validation_split_st_deref:
  assumes "dataset < length h"
  shows "map_option (\<lambda>(s, h'). map ((!) h') s) (cross_validation_split_st R dataset options h)
    = cross_validation_split R (h ! dataset) options"
proof -
  have "map ((!) (h @ rest # new)) [Suc (length h) ..< Suc (length h) + length new] = new"
    for rest :: "'a jsarray" and new
    using map_nth_append_upt [of "h @ [rest]" new] by simp
  then show ?thesis
    unfolding cross_validation_split_st_refines [OF assms] cross_validation_split_def Let_def
    by (simp add: option.map_comp comp_def case_prod_unfold cong: option.map_cong)
qed

lemma train_test_split_st_frame:
  assumes "dataset < length h" "train_test_split_st R dataset options h = Some (r, h')"
  shows "dataset < length h' \<and> h' ! dataset = h ! dataset"
  using assms by (auto simp: train_test_split_st_refines [OF assms(1)] nth_append)

lemma cross_validation_split_st_frame:
  assumes "dataset < length h" "cross_validation_split_st R dataset options h = Some (s, h')"
  shows "dataset < length h' \<and> h' ! dataset = h ! dataset"
  using assms by (auto simp: cross_validation_split_st_refines [OF assms(1)] nth_append)

text \<open>
  C2. For every dataset and every options object, calling \<^verbatim>\<open>train_test_split\<close> twice,
  or \<^verbatim>\<open>cross_validation_split\<close> twice, with the identical dataset and identical
  options yields identical outputs, order included. The calls are made on the store: the
  second call is made on the store the first one leaves, with the same array reference,
  and returns arrays with the same contents; and calls on any two stores whose datasets
  have the same contents return the same contents.
\<close>

theorem splits_deterministic:
  fixes h :: "'a store"
  assumes "dataset < length h"
  shows "(\<forall>r1 h1. train_test_split_st R dataset options h = Some (r1, h1) \<longrightarrow>
            (\<exists>r2 h2. train_test_split_st R dataset options h1 = Some (r2, h2)
               \<and> deref_tts h2 r2 = deref_tts h1 r1))
    \<and> (\<forall>s1 h1. cross_validation_split_st R dataset options' h = Some (s1, h1) \<longrightarrow>
            (\<exists>s2 h2. cross_validation_split_st R dataset options' h1 = Some (s2, h2)
               \<and> map ((!) h2) s2 = map ((!) h1) s1))
    \<and> (\<forall>h' dataset'. dataset' < length h' \<and> h' ! dataset' = h ! dataset \<longrightarrow>
            map_option (\<lambda>(r, h1). deref_tts h1 r) (train_test_split_st R dataset' options h')
              = map_option (\<lambda>(r, h1). deref_tts h1 r) (train_test_split_st R dataset options h)
          \<and> map_option (\<lambda>(s, h1). map ((!) h1) s) (cross_validation_split_st R dataset' options' h')
              = map_option (\<lambda>(s, h1). map ((!) h1) s) (cross_validation_split_st R dataset options' h))"
proof (intro conjI allI impI)
  fix r1 h1
  assume a: "train_test_split_st R dataset options h = Some (r1, h1)"
  from train_test_split_st_frame [OF assms a]
  have f: "dataset < length h1" "h1 ! dataset = h ! dataset" by simp_all
  from train_test_split_st_deref [OF assms, of R options] a
  have v: "train_test_split R (h ! dataset) options = Some (deref_tts h1 r1)" by simp
  from train_test_split_st_deref [OF f(1), of R options] v f(2)
  have "map_option (\<lambda>(r, h'). deref_tts h' r) (train_test_split_st R dataset options h1)
      = Some (deref_tts h1 r1)" by simp
  then show "\<exists>r2 h2. train_test_split_st R dataset options h1 = Some (r2, h2)
               \<and> deref_tts h2 r2 = deref_tts h1 r1"
    by auto
next
  fix s1 h1
  assume a: "cross_validation_split_st R dataset options' h = Some (s1, h1)"
  from cross_validation_split_st_frame [OF assms a]
  have f: "dataset < length h1" "h1 ! dataset = h ! dataset" by simp_all
  from cross_validation_split_st_deref [OF assms, of R options'] a
  have v: "cross_validation_split R (h ! dataset) options' = Some (map ((!) h1) s1)" by simp
  from cross_validation_split_st_deref [OF f(1), of R options'] v f(2)
  have "map_option (\<lambda>(s, h'). map ((!) h') s) (cross_validation_split_st R dataset options' h1)
      = Some (map ((!) h1) s1)" by simp
  then show "\<exists>s2 h2. cross_validation_split_st R dataset options' h1 = Some (s2, h2)
               \<and> map ((!) h2) s2 = map ((!) h1) s1"
    by auto
next
  fix h' :: "'a store" and dataset'
  assume b: "dataset' < length h' \<and> h' ! dataset' = h ! dataset"
  then show "map_option (\<lambda>(r, h1). deref_tts h1 r) (train_test_split_st R dataset' options h')
      = map_option (\<lambda>(r, h1). deref_tts h1 r) (train_test_split_st R dataset options h)"
    by (simp add: train_test_split_st_deref assms)
  from b show "map_option (\<lambda>(s, h1). map ((!) h1) s) (cross_validation_split_st R dataset' options' h')
      = map_option (\<lambda>(s, h1). map ((!) h1) s) (cross_validation_split_st R dataset options' h)"
    by (simp add: cross_validation_split_st_deref assms)
qed

text \<open>The theorem at a store holding one five-row dataset, seed 3.\<close>

theorem splits_deterministic_witness:
  "0 < length [[Some (20::nat), Some 25, Some 10, Some 33, Some 50]]
   \<and> train_test_split_st counter_random 0
        \<lparr>test_size = None, train_size = None, random_state = Some 3,
         return_array = None, parse_int_train_size = None\<rparr>
        [[Some (20::nat), Some 25, Some 10, Some 33, Some 50]]
      = Some (TrainTestRef 1 2,
          [[Some 20, Some 25, Some 10, Some 33, Some 50],
           [Some 33, Some 20, Some 50, Some 25], [Some 10]])
   \<and> (\<exists>r2 h2. train_test_split_st counter_random 0
        \<lparr>test_size = None, train_size = None, random_state = Some 3,
         return_array = None, parse_int_train_size = None\<rparr>
        [[Some (20::nat), Some 25, Some 10, Some 33, Some 50],
         [Some 33, Some 20, Some 50, Some 25], [Some 10]] = Some (r2, h2)
      \<and> deref_tts h2 r2 = TrainTest [Some 33, Some 20, Some 50, Some 25] [Some 10])
   \<and> cross_validation_split_st counter_random 0 \<lparr>folds = Some 2, cvs_random_state = Some 3\<rparr>
        [[Some (20::nat), Some 25, Some 10, Some 33, Some 50]]
      = Some ([2, 3],
          [[Some 20, Some 25, Some 10, Some 33, Some 50], [Some 10],
           [Some 33, Some 20], [Some 50, Some 25]])
   \<and> (\<exists>s2 h2. cross_validation_split_st counter_random 0 \<lparr>folds = Some 2, cvs_random_state = Some 3\<rparr>
        [[Some (20::nat), Some 25, Some 10, Some 33, Some 50], [Some 10],
           [Some 33, Some 20], [Some 50, Some 25]] = Some (s2, h2)
      \<and> map ((!) h2) s2 = [[Some 33, Some 20], [Some 50, Some 25]])"
proof -
  have a: "train_test_split_st counter_random 0
        \<lparr>test_size = None, train_size = None, random_state = Some 3,
         return_array = None, parse_int_train_size = None\<rparr>
        [[Some (20::nat), Some 25, Some 10, Some 33, Some 50]]
      = Some (TrainTestRef 1 2,
          [[Some 20, Some 25, Some 10, Some 33, Some 50],
           [Some 33, Some 20, Some 50, Some 25], [Some 10]])"
    by code_simp
  have b: "cross_validation_split_st counter_random 0 \<lparr>folds = Some 2, cvs_random_state = Some 3\<rparr>
        [[Some (20::nat), Some 25, Some 10, Some 33, Some 50]]
      = Some ([2, 3],
          [[Some 20, Some 25, Some 10, Some 33, Some 50], [Some 10],
           [Some 33, Some 20], [Some 50, Some 25]])"
    by code_simp
  have l: "0 < length [[Some (20::nat), Some 25, Some 10, Some 33, Some 50]]" by simp
  note t = splits_deterministic [OF l, of counter_random
      "\<lparr>test_size = None, train_size = None, random_state = Some 3,
         return_array = None, parse_int_train_size = None\<rparr>"
      "\<lparr>folds = Some 2, cvs_random_state = Some 3\<rparr>"]
  from t a have c: "\<exists>r2 h2. train_test_split_st counter_random 0
        \<lparr>test_size = None, train_size = None, random_state = Some 3,
         return_array = None, parse_int_train_size = None\<rparr>
        [[Some (20::nat), Some 25, Some 10, Some 33, Some 50],
         [Some 33, Some 20, Some 50, Some 25], [Some 10]] = Some (r2, h2)
      \<and> deref_tts h2 r2 = TrainTest [Some 33, Some 20, Some 50, Some 25] [Some 10]"
    by simp
  from t b have d: "\<exists>s2 h2. cross_validation_split_st counter_random 0 \<lparr>folds = Some 2, cvs_random_state = Some 3\<rparr>
        [[Some (20::nat), Some 25, Some 10, Some 33, Some 50], [Some 10],
           [Some 33, Some 20], [Some 50, Some 25]] = Some (s2, h2)
      \<and> map ((!) h2) s2 = [[Some 33, Some 20], [Some 50, Some 25]]"
    by simp
  from l a b c d show ?thesis by blast
qed

section \<open>cross\_validate\_score with the regression flag\<close>

text \<open>
  C7, as stated: with a truthy \<open>regression\<close> flag \<^verbatim>\<open>cross_validate_score\<close> signals
  "not supported". The branch \<^verbatim>\<open>if (regression) { }\<close> is empty and nothing is thrown:
  with collaborators that do not throw, the call returns one \<open>undefined\<close> per fold.
\<close>

theorem regression_counterexample:
  "cross_validate_score counter_random size_collaborators
     \<lparr>cfg_classifier = Some 0, cfg_regression = Some True,
      cfg_dataset = Some [Some (20::nat), Some 25, Some 10, Some 33],
      cfg_testingset = Some [Some 50, Some 42], cfg_dependentFeatures = None,
      cfg_independentFeatures = None, cfg_random_state = None, cfg_folds = Some 2,
      cfg_use_train_x_matrix = None, cfg_use_train_y_matrix = None\<rparr>
   = Some (Inr [None, None])"
  by code_simp

text \<open>
  C7, amended: for every configuration with a truthy \<open>regression\<close> flag,
  \<^verbatim>\<open>cross_validate_score\<close> signals no failure of its own: when the draws return and the
  data collaborators do not throw, it returns an array holding \<open>undefined\<close> once for each
  fold of \<^verbatim>\<open>cross_validation_split(dataset, {folds, random_state})\<close>, and the classifier
  is not called.
\<close>

theorem regression_returns_undefined:
  assumes "draws_return R" "data_total C" "cfg_regression config = Some True"
  shows "\<exists>fs. cross_validation_split R (with_default (cfg_dataset config) [])
            \<lparr>folds = Some (with_default (cfg_folds config) 10),
             cvs_random_state = cfg_random_state config\<rparr> = Some fs
     \<and> cross_validate_score R C config = Some (Inr (replicate (length fs) None))"
proof -
  from cross_validation_split_lengths [OF assms(1)]
  obtain fs where fs: "cross_validation_split R (with_default (cfg_dataset config) [])
            \<lparr>folds = Some (with_default (cfg_folds config) 10),
             cvs_random_state = cfg_random_state config\<rparr> = Some fs"
    by blast
  from assms(2) obtain ds where ds: "new_DataSet C (cfg_testingset config) = Inr ds"
    unfolding data_total_def by blast
  from assms(2) obtain yt where yt: "columnMatrix C ds (with_default (cfg_independentFeatures config) [[''Y'']]) = Inr yt"
    unfolding data_total_def by blast
  from assms(2) obtain xt where xt: "columnMatrix C ds (with_default (cfg_dependentFeatures config) [[''X'']]) = Inr xt"
    unfolding data_total_def by blast
  from assms(2) obtain ac where ac: "pivotVector0 C yt = Inr ac"
    unfolding data_total_def by blast
  have "cross_validate_score R C config = Some (Inr (replicate (length fs) None))"
    by (simp add: cross_validate_score_def fs ds yt xt ac and_then_def
        score_folds_regression [OF assms(2,3)])
  with fs show ?thesis by blast
qed

lemma size_collaborators_total: "data_total size_collaborators"
  by (simp add: data_total_def size_collaborators_def)

text \<open>The theorem at a four-row dataset with 2 folds.\<close>

theorem regression_returns_undefined_witness:
  "draws_return counter_random \<and> data_total (size_collaborators :: (nat, nat, nat, unit) collaborators)
   \<and> (\<exists>fs. cross_validation_split counter_random [Some (20::nat), Some 25, Some 10, Some 33]
            \<lparr>folds = Some 2, cvs_random_state = None\<rparr> = Some fs
     \<and> cross_validate_score counter_random size_collaborators
     \<lparr>cfg_classifier = Some 0, cfg_regression = Some True,
      cfg_dataset = Some [Some (20::nat), Some 25, Some 10, Some 33],
      cfg_testingset = Some [Some 50, Some 42], cfg_dependentFeatures = None,
      cfg_independentFeatures = None, cfg_random_state = None, cfg_folds = Some 2,
      cfg_use_train_x_matrix = None, cfg_use_train_y_matrix = None\<rparr>
       = Some (Inr (replicate (length fs) None)))"
  using regression_returns_undefined [OF counter_random_returns size_collaborators_total,
     of "\<lparr>cfg_classifier = Some 0, cfg_regression = Some True,
      cfg_dataset = Some [Some (20::nat), Some 25, Some 10, Some 33],
      cfg_testingset = Some [Some 50, Some 42], cfg_dependentFeatures = None,
      cfg_independentFeatures = None, cfg_random_state = None, cfg_folds = Some 2,
      cfg_use_train_x_matrix = None, cfg_use_train_y_matrix = None\<rparr>"]
    counter_random_returns size_collaborators_total
  by (simp add: with_default_def)

section \<open>Sorting\<close>

lemma sort_insert_set: "set (sort_insert c a bs) = insert a (set bs)"
  by (induction bs) auto

lemma sort_insert_sorted:
  "sorted_wrt (\<lambda>a b. support b \<le> support a) bs \<Longrightarrow>
   sorted_wrt (\<lambda>a b. support b \<le> support a) (sort_insert (\<lambda>a b. support b - support a) x bs)"
  by (induction bs) (auto simp: sort_insert_set)

lemma array_sort_set: "set (array_sort c arr) = set arr"
  by (induction arr) (simp_all add: array_sort_def sort_insert_set)

lemma array_sort_sorted:
  "sorted_wrt (\<lambda>a b. support b \<le> support a) (array_sort (\<lambda>a b. support b - support a) arr)"
  by (induction arr) (simp_all add: array_sort_def sort_insert_sorted)

section \<open>assocationRuleLearning\<close>

text \<open>
  C8. For every transactions input, every mining result and every options object whose
  \<open>summary\<close> is not false (whatever its \<open>minLength\<close>), the summary resolved by
  \<^verbatim>\<open>assocationRuleLearning\<close> is sorted non-increasing in raw support and holds no
  record with fewer than 2 items.
\<close>

theorem summary_sorted_and_filtered:
  assumes "opt_summary options \<noteq> Some False" and "exec (case opt_support options of None \<Rightarrow> 4 / 10 | Some s \<Rightarrow> s) transactions' = Inr itemsets"
  shows "\<exists>rs. assocationRuleLearning exec transactions' options = Inr (Summary rs)
     \<and> sorted_wrt (\<lambda>a b. support b \<le> support a) rs
     \<and> (\<forall>r \<in> set rs. 2 \<le> length (items r))"
proof -
  from assms(1) have "(case opt_summary options of None \<Rightarrow> True | Some b \<Rightarrow> b)"
    by (cases "opt_summary options") auto
  with assms(2) show ?thesis
   by (auto simp add: assocationRuleLearning_def Let_def array_sort_sorted array_sort_set)
qed

text \<open>The theorem at a mining result of three itemsets, with \<open>minLength\<close> 1.\<close>

theorem summary_sorted_and_filtered_witness:
  "opt_summary \<lparr>opt_support = None, opt_minLength = Some 1, opt_summary = None,
       opt_valuesMap = Some [(''a'', ''0''), (''0'', ''a'')]\<rparr> \<noteq> Some False
   \<and> (\<exists>rs. assocationRuleLearning
          (\<lambda>s ts. Inr [\<lparr>items = [''0''], support = 3\<rparr>, \<lparr>items = [''0'', ''1''], support = 2\<rparr>,
                        \<lparr>items = [''0'', ''2''], support = 3\<rparr>] :: unit + itemset list)
          [[''0'', ''1'', ''2''], [''0'', ''2''], [''0'', ''1'', ''2'']]
          \<lparr>opt_support = None, opt_minLength = Some 1, opt_summary = None,
           opt_valuesMap = Some [(''a'', ''0''), (''0'', ''a'')]\<rparr> = Inr (Summary rs)
      \<and> sorted_wrt (\<lambda>a b. support b \<le> support a) rs
      \<and> (\<forall>r \<in> set rs. 2 \<le> length (items r)))"
  using summary_sorted_and_filtered [of
      "\<lparr>opt_support = None, opt_minLength = Some 1, opt_summary = None,
        opt_valuesMap = Some [(''a'', ''0''), (''0'', ''a'')]\<rparr>"
      "\<lambda>s ts. Inr [\<lparr>items = [''0''], support = 3\<rparr>, \<lparr>items = [''0'', ''1''], support = 2\<rparr>,
                        \<lparr>items = [''0'', ''2''], support = 3\<rparr>] :: unit + itemset list"
      "[[''0'', ''1'', ''2''], [''0'', ''2''], [''0'', ''1'', ''2'']]"]
  by simp

lemmas getTransactions_eval =
  getTransactions_def encode_row_def set_add_def assign_token_def truthy_str_def
  digit_char_def Let_def List.map_filter_def

lemma toString_digits: "toString 0 = ''0''" "toString 1 = ''1''" "toString (Suc 0) = ''1''"
  by (simp_all add: toString.simps digit_char_def)

lemma parseInt_half: "parseInt 0 = 0" "parseInt 1 = 1" "parseInt (1/2) = 0" "parseInt (3/2) = 1"
  by code_simp+

section \<open>getTransactions\<close>

text \<open>
  C9. The claim is that for every raw cell value \<open>v\<close> mapped to a token \<open>t\<close>, looking
  up \<open>t\<close> in \<open>valuesMap\<close> returns \<open>v\<close> and looking up \<open>v\<close> returns \<open>t\<close>. One map
  holds both directions, so a raw value that is itself a token collides: for the single
  row with the cells \<^verbatim>\<open>''\<close> and \<^verbatim>\<open>'0'\<close>, the value \<^verbatim>\<open>''\<close> is mapped to the token
  \<^verbatim>\<open>'0'\<close>, and looking up \<^verbatim>\<open>'0'\<close> returns \<^verbatim>\<open>'1'\<close>, not \<^verbatim>\<open>''\<close>.
\<close>

theorem getTransactions_collision:
  "values_set (getTransactions [['''', ''0'']] Map.empty) = ['''', ''0'']
   \<and> map_of (valuesMap (getTransactions [['''', ''0'']] Map.empty)) '''' = Some ''0''
   \<and> map_of (valuesMap (getTransactions [['''', ''0'']] Map.empty)) ''0'' = Some ''1''"
  by (simp add: getTransactions_eval toString_digits parseInt_half)

text \<open>
  C10, as stated: with the option \<^verbatim>\<open>excludeEmptyTransactions\<close> set to false, rows that
  encode to zero tokens are retained. The code reads the option under the name
  \<^verbatim>\<open>exludeEmptyTranscations\<close>, so the empty row is dropped all the same.
\<close>

theorem misspelt_option_counterexample:
  "[] \<notin> set (transactions (getTransactions [[''a''], [], [''b'']]
      [''excludeEmptyTransactions'' \<mapsto> False]))"
  by (simp add: getTransactions_eval toString_digits parseInt_half)

lemma length_encode_rows: "encode_rows data st = (ts, st') \<Longrightarrow> length ts = length data"
proof (induction data arbitrary: st ts st')
  case Nil
  then show ?case by simp
next
  case (Cons csvRow data)
  obtain t st1 where r: "encode_row csvRow st = (t, st1)" by (cases "encode_row csvRow st")
  obtain ts1 st2 where rs: "encode_rows data st1 = (ts1, st2)" by (cases "encode_rows data st1")
  from Cons.prems r rs have "ts = t # ts1" by simp
  with Cons.IH [OF rs] show ?case by simp
qed

text \<open>
  C10, amended: when the option \<^verbatim>\<open>exludeEmptyTranscations\<close> (the name the code and its
  documentation use) is false, every encoded row is retained, the empty ones too, so the
  transactions are as many as the rows; otherwise (the option absent or true, whatever the
  other options) exactly the rows that encode to zero tokens are dropped.
\<close>

theorem getTransactions_empty_rows:
  "(options ''exludeEmptyTranscations'' = Some False \<longrightarrow>
      transactions (getTransactions data options)
        = fst (encode_rows data \<lparr>values_set = [], valuesMap = []\<rparr>)
      \<and> length (transactions (getTransactions data options)) = length data)
   \<and> (options ''exludeEmptyTranscations'' \<noteq> Some False \<longrightarrow>
      transactions (getTransactions data options)
        = filter (\<lambda>t. t \<noteq> []) (fst (encode_rows data \<lparr>values_set = [], valuesMap = []\<rparr>)))"
  by (cases "options ''exludeEmptyTranscations''")
     (auto simp: getTransactions_def Let_def map_add_def split: prod.splits dest: length_encode_rows)

text \<open>The theorem at three rows, the second one empty.\<close>

theorem getTransactions_empty_rows_witness:
  "[''exludeEmptyTranscations'' \<mapsto> False] ''exludeEmptyTranscations'' = Some False
   \<and> transactions (getTransactions [[''a''], [], [''b'']] [''exludeEmptyTranscations'' \<mapsto> False])
        = [[''0''], [], [''1'']]
   \<and> length (transactions (getTransactions [[''a''], [], [''b'']]
        [''exludeEmptyTranscations'' \<mapsto> False])) = length [[''a''], [], [''b'']]"
  using getTransactions_empty_rows [of "[''exludeEmptyTranscations'' \<mapsto> False]" "[[''a''], [], [''b'']]"]
  by (simp add: encode_row_def set_add_def assign_token_def truthy_str_def
     digit_char_def Let_def List.map_filter_def toString_digits parseInt_half)


end
